theory Spec2Isabelle
  imports Main "HOL-Library.Char_ord" "HOL-Library.List_Lexorder" "HOL-Library.Product_Lexorder"
    "HOL-Library.Multiset"
begin

section \<open>JavaScript values and plain objects\<close>

text \<open>
  The SeaTable node works on JSON rows. A value is one of the shapes that
  \<^verbatim>\<open>rowFormatColumn\<close> tells apart with \<^verbatim>\<open>typeof\<close> and \<^verbatim>\<open>Array.isArray\<close>.
  Numbers are modelled by integers (fractions, NaN and the infinities are left out);
  strings are lists of code units below 256, on which \<^verbatim>\<open>String.prototype.normalize\<close>
  is the identity.
\<close>

datatype jsval =
    JUndefined
  | JNull
  | JBool bool
  | JNum int
  | JStr string
  | JArr "jsval list"
  | JObj "(string \<times> jsval) list"
  | JFun

text \<open>
  A plain object is the list of its own properties in the order in which
  \<^verbatim>\<open>Object.keys\<close>, \<^verbatim>\<open>for-in\<close> and \<^verbatim>\<open>JSON.stringify\<close> visit them: the array-index
  keys first, ascending, then the other keys in the order of their creation.
\<close>

type_synonym obj = "(string \<times> jsval) list"

definition isDigit :: "char \<Rightarrow> bool" where
  "isDigit c = (48 \<le> (of_char c :: nat) \<and> (of_char c :: nat) \<le> 57)"

definition digitsValue :: "string \<Rightarrow> nat" where
  "digitsValue s = foldl (\<lambda>n c. 10 * n + ((of_char c :: nat) - 48)) 0 s"

text \<open>An array index is the canonical decimal form of an integer in 0 .. 2^32 - 2.\<close>

definition isArrayIndex :: "string \<Rightarrow> bool" where
  "isArrayIndex s =
     (s \<noteq> [] \<and> list_all isDigit s \<and> (s = ''0'' \<or> hd s \<noteq> CHR ''0'')
      \<and> digitsValue s < 4294967295)"

text \<open>The properties every plain object inherits from \<^verbatim>\<open>Object.prototype\<close>.\<close>

definition objectPrototypeNames :: "string list" where
  "objectPrototypeNames =
     [''constructor'', ''__defineGetter__'', ''__defineSetter__'', ''hasOwnProperty'',
      ''__lookupGetter__'', ''__lookupSetter__'', ''isPrototypeOf'',
      ''propertyIsEnumerable'', ''toString'', ''valueOf'', ''__proto__'',
      ''toLocaleString'']"

text \<open>
  \<^verbatim>\<open>o[k]\<close>: the own property, else the inherited one (a function, or for
  \<^verbatim>\<open>__proto__\<close> the prototype object), else \<^verbatim>\<open>undefined\<close>.
\<close>

definition objGet :: "obj \<Rightarrow> string \<Rightarrow> jsval" where
  "objGet ob k =
     (case map_of ob k of
        Some v \<Rightarrow> v
      | None \<Rightarrow>
          if k = ''__proto__'' then JObj []
          else if k \<in> set objectPrototypeNames then JFun
          else JUndefined)"

definition objKeys :: "obj \<Rightarrow> string list" where
  "objKeys ob = map fst ob"

fun objUpdate :: "string \<Rightarrow> jsval \<Rightarrow> obj \<Rightarrow> obj" where
  "objUpdate k v [] = []"
| "objUpdate k v ((k', v') # ob) =
     (if k' = k then (k', v) # ob else (k', v') # objUpdate k v ob)"

text \<open>Creating a property: an array index goes to its numeric place, any other key to the end.\<close>

fun objInsertIndex :: "string \<Rightarrow> jsval \<Rightarrow> obj \<Rightarrow> obj" where
  "objInsertIndex k v [] = [(k, v)]"
| "objInsertIndex k v ((k', v') # ob) =
     (if isArrayIndex k' \<and> digitsValue k' < digitsValue k
      then (k', v') # objInsertIndex k v ob
      else (k, v) # (k', v') # ob)"

definition objCreate :: "string \<Rightarrow> jsval \<Rightarrow> obj \<Rightarrow> obj" where
  "objCreate k v ob = (if isArrayIndex k then objInsertIndex k v ob else ob @ [(k, v)])"

text \<open>
  \<^verbatim>\<open>o[k] = v\<close>: an own property is overwritten where it stands; otherwise the
  assignment creates one, except for \<^verbatim>\<open>__proto__\<close>, where it reaches the inherited
  setter and creates no own property. With \<^verbatim>\<open>null\<close>, an array or an object as the value the
  setter replaces the prototype of \<^verbatim>\<open>o\<close>. The model keeps every object on
  \<^verbatim>\<open>Object.prototype\<close> and does not follow that change: what a later assignment to
  \<^verbatim>\<open>__proto__\<close> or a later read of an inherited name gives on such an object is not covered
  by the model.
\<close>

definition objSet :: "string \<Rightarrow> jsval \<Rightarrow> obj \<Rightarrow> obj" where
  "objSet k v ob =
     (if k \<in> set (objKeys ob) then objUpdate k v ob
      else if k = ''__proto__'' then ob
      else objCreate k v ob)"

text \<open>\<^verbatim>\<open>delete o[k]\<close>\<close>

definition objDelete :: "string \<Rightarrow> obj \<Rightarrow> obj" where
  "objDelete k ob = filter (\<lambda>kv. fst kv \<noteq> k) ob"

text \<open>JavaScript truthiness, as tested by \<^verbatim>\<open>if (row[name])\<close>.\<close>

fun truthy :: "jsval \<Rightarrow> bool" where
  "truthy JUndefined = False"
| "truthy JNull = False"
| "truthy (JBool b) = b"
| "truthy (JNum n) = (n \<noteq> 0)"
| "truthy (JStr s) = (s \<noteq> [])"
| "truthy (JArr xs) = True"
| "truthy (JObj ob) = True"
| "truthy JFun = True"

section \<open>The schema constants\<close>

definition rowFetchSegmentLimit :: nat where
  "rowFetchSegmentLimit = 1000"

definition internalNames :: "string list" where
  "internalNames = [''_id'', ''_creator'', ''_ctime'', ''_last_modifier'', ''_mtime'', ''_seq'']"

record IDtableMetadataColumn =
  key :: string
  name :: string
  type :: string

type_synonym IRow = obj

section \<open>Row formatting\<close>

fun isJStr :: "jsval \<Rightarrow> bool" where
  "isJStr (JStr s) = True"
| "isJStr v = False"

fun rowFormatColumn :: "jsval \<Rightarrow> jsval" where
  "rowFormatColumn JNull = JNull"
| "rowFormatColumn JUndefined = JNull"
| "rowFormatColumn (JBool b) = JBool b"
| "rowFormatColumn (JNum n) = JNum n"
| "rowFormatColumn (JStr s) = JStr s"
| "rowFormatColumn (JArr xs) = (if list_all isJStr xs then JArr xs else JNull)"
| "rowFormatColumn (JObj ob) = JNull"
| "rowFormatColumn JFun = JNull"

definition rowFormatColumns :: "IRow \<Rightarrow> string list \<Rightarrow> IRow" where
  "rowFormatColumns row columnNames =
     foldl (\<lambda>outRow c. objSet c (rowFormatColumn (objGet row c)) outRow) [] columnNames"

definition rowsFormatColumns :: "IRow list \<Rightarrow> string list \<Rightarrow> IRow list" where
  "rowsFormatColumns rows columnNames = map (\<lambda>row. rowFormatColumns row columnNames) rows"

section \<open>Sequencing rows\<close>

text \<open>The loop \<^verbatim>\<open>for (let i = 0; i < l;) rows.rows[i]._seq = ++i\<close>, from index \<open>i\<close> on.\<close>

fun rowsSequenceFrom :: "nat \<Rightarrow> IRow list \<Rightarrow> IRow list" where
  "rowsSequenceFrom i [] = []"
| "rowsSequenceFrom i (row # rows) =
     objSet ''_seq'' (JNum (int i + 1)) row # rowsSequenceFrom (Suc i) rows"

definition rowsSequence :: "IRow list \<Rightarrow> IRow list" where
  "rowsSequence rows =
     (case rows of
        [] \<Rightarrow> rowsSequenceFrom 0 rows
      | first # _ \<Rightarrow>
          if objGet first ''_seq'' \<noteq> JUndefined then rows
          else rowsSequenceFrom 0 rows)"

section \<open>Reference notions used to state the properties\<close>

text \<open>The values \<^verbatim>\<open>rowFormatColumn\<close> lets through: booleans, numbers, strings, arrays of strings.\<close>

fun isWhitelisted :: "jsval \<Rightarrow> bool" where
  "isWhitelisted (JBool b) = True"
| "isWhitelisted (JNum n) = True"
| "isWhitelisted (JStr s) = True"
| "isWhitelisted (JArr xs) = list_all isJStr xs"
| "isWhitelisted v = False"

text \<open>The elements of a list in the order of their first occurrence, skipping those already seen.\<close>

fun firstSeen :: "'a set \<Rightarrow> 'a list \<Rightarrow> 'a list" where
  "firstSeen seen [] = []"
| "firstSeen seen (x # xs) =
     (if x \<in> seen then firstSeen seen xs else x # firstSeen (insert x seen) xs)"

section \<open>Paginated collection fetch\<close>

text \<open>The errors the nodes raise, and the runtime's own \<^verbatim>\<open>TypeError\<close> and \<^verbatim>\<open>RangeError\<close>.\<close>

datatype error = NodeApiError | NodeOperationError | TypeError | RangeError

text \<open>
  What one call of \<^verbatim>\<open>apiRequest\<close> gives: it throws (any transport failure or non-success
  status becomes a \<^verbatim>\<open>NodeApiError\<close>), or it returns the parsed body. The body may be missing
  (\<^verbatim>\<open>undefined\<close> or \<^verbatim>\<open>null\<close>: \<open>NoBody\<close>); otherwise the loop reads its \<^verbatim>\<open>rows\<close>: a string, a
  number or a boolean (\<open>RowsScalar\<close>), or, as \<^verbatim>\<open>IRows\<close> declares it, an array of rows, or nothing
  (\<^verbatim>\<open>undefined\<close> or \<^verbatim>\<open>null\<close>).
\<close>

datatype reply = Failure | NoBody | RowsScalar | Reply "IRow list option"

text \<open>A request as \<^verbatim>\<open>apiRequest\<close> receives it; \<open>callQs\<close> is the query object at the time of the call.\<close>

record apiCall =
  callMethod :: string
  callEndpoint :: string
  callBody :: obj
  callQs :: obj

text \<open>
  The server is the list of its successive replies. \<^verbatim>\<open>apiRequestAllItems\<close> returns, throws,
  or is still waiting for a reply when the list ends (\<open>Pending\<close>): it has no bound on the
  number of pages of its own.
\<close>

datatype 'a outcome = Returned 'a | Threw error | Pending

text \<open>
  The unary plus of \<^verbatim>\<open>+query.start\<close>. The loop reads back the number it stored itself, so
  only the first equation is ever used.
\<close>

fun numberOf :: "jsval \<Rightarrow> int" where
  "numberOf (JNum n) = n"
| "numberOf (JBool b) = (if b then 1 else 0)"
| "numberOf v = 0"

text \<open>
  The \<^verbatim>\<open>do ... while\<close> loop: the state is the query object, \<^verbatim>\<open>returnData\<close> and the requests
  made so far.

  \<^verbatim>\<open>returnData.push.apply(returnData, responseData.rows)\<close> passes the rows of the page as the
  arguments of one call. Reading \<^verbatim>\<open>rows\<close> from a missing body throws a \<^verbatim>\<open>TypeError\<close>, and so
  does \<^verbatim>\<open>apply\<close> on a string, a number or a boolean (nothing is passed for \<^verbatim>\<open>undefined\<close> and
  \<^verbatim>\<open>null\<close>); an engine passes only so many arguments in a call and throws a \<^verbatim>\<open>RangeError\<close>
  beyond that. The bound depends on the engine and its stack: it is the parameter
  \<open>maxArguments\<close>. Each of these errors leaves the loop before \<^verbatim>\<open>query.start\<close> is advanced.
\<close>

fun apiRequestAllItemsLoop ::
  "nat \<Rightarrow> string \<Rightarrow> string \<Rightarrow> obj \<Rightarrow> reply list \<Rightarrow> obj \<Rightarrow> IRow list \<Rightarrow> apiCall list
     \<Rightarrow> IRow list outcome \<times> obj \<times> apiCall list" where
  "apiRequestAllItemsLoop maxArguments m e b [] query returnData calls = (Pending, query, calls)"
| "apiRequestAllItemsLoop maxArguments m e b (Failure # replies) query returnData calls =
     (Threw NodeApiError, query,
      calls @ [\<lparr>callMethod = m, callEndpoint = e, callBody = b, callQs = query\<rparr>])"
| "apiRequestAllItemsLoop maxArguments m e b (NoBody # replies) query returnData calls =
     (Threw TypeError, query,
      calls @ [\<lparr>callMethod = m, callEndpoint = e, callBody = b, callQs = query\<rparr>])"
| "apiRequestAllItemsLoop maxArguments m e b (RowsScalar # replies) query returnData calls =
     (Threw TypeError, query,
      calls @ [\<lparr>callMethod = m, callEndpoint = e, callBody = b, callQs = query\<rparr>])"
| "apiRequestAllItemsLoop maxArguments m e b (Reply rows # replies) query returnData calls =
     (let calls' = calls @ [\<lparr>callMethod = m, callEndpoint = e, callBody = b, callQs = query\<rparr>];
          arguments = (case rows of None \<Rightarrow> [] | Some xs \<Rightarrow> xs)
      in if maxArguments < length arguments then (Threw RangeError, query, calls')
         else
           (let returnData' = returnData @ arguments;
                query' = objSet ''start''
                     (JNum (numberOf (objGet query ''start'') + int rowFetchSegmentLimit)) query
            in if (case rows of None \<Rightarrow> False | Some xs \<Rightarrow> length xs > rowFetchSegmentLimit - 1)
               then apiRequestAllItemsLoop maxArguments m e b replies query' returnData' calls'
               else (Returned returnData', query', calls')))"

text \<open>\<^verbatim>\<open>if (query === undefined) { query = {}; }\<close>\<close>

definition query0 :: "obj option \<Rightarrow> obj" where
  "query0 query = (case query of None \<Rightarrow> [] | Some q \<Rightarrow> q)"

definition apiRequestAllItems ::
  "nat \<Rightarrow> string \<Rightarrow> string \<Rightarrow> obj \<Rightarrow> obj option \<Rightarrow> reply list
     \<Rightarrow> IRow list outcome \<times> obj \<times> apiCall list" where
  "apiRequestAllItems maxArguments m e b query replies =
     (let q = query0 query;
          segment = rowFetchSegmentLimit;
          q1 = objSet ''start'' (JNum 0) q;
          q2 = objSet ''limit'' (JNum (int segment)) q1
      in apiRequestAllItemsLoop maxArguments m e b replies q2 [] [])"

text \<open>
  Reference notions for pagination: the rows a reply carries, a page that makes the loop go on
  (at least 1000 rows), a page that ends it (at most 999 rows, or no rows array), a page whose
  rows the engine passes in one call, and the query and request of page \<open>i\<close>.
\<close>

fun replyRows :: "reply \<Rightarrow> IRow list" where
  "replyRows (Reply (Some xs)) = xs"
| "replyRows r = []"

fun isFullPage :: "reply \<Rightarrow> bool" where
  "isFullPage (Reply (Some xs)) = (1000 \<le> length xs)"
| "isFullPage r = False"

fun isShortPage :: "reply \<Rightarrow> bool" where
  "isShortPage (Reply (Some xs)) = (length xs \<le> 999)"
| "isShortPage (Reply None) = True"
| "isShortPage r = False"

definition fitsCall :: "nat \<Rightarrow> reply \<Rightarrow> bool" where
  "fitsCall maxArguments r = (length (replyRows r) \<le> maxArguments)"

definition pageQuery :: "obj option \<Rightarrow> nat \<Rightarrow> obj" where
  "pageQuery query i =
     objSet ''start'' (JNum (int (1000 * i)))
       (objSet ''limit'' (JNum 1000)
          (objSet ''start'' (JNum 0) (query0 query)))"

definition pageCall :: "string \<Rightarrow> string \<Rightarrow> obj \<Rightarrow> obj option \<Rightarrow> nat \<Rightarrow> apiCall" where
  "pageCall m e b query i =
     \<lparr>callMethod = m, callEndpoint = e, callBody = b, callQs = pageQuery query i\<rparr>"

section \<open>Mapping column keys to column names\<close>

text \<open>
  lodash's \<^verbatim>\<open>_.forEach\<close> walks an object like an array when it has a \<^verbatim>\<open>length\<close> that is
  a non-negative integer up to \<^verbatim>\<open>Number.MAX_SAFE_INTEGER\<close>. The callback then receives the
  numeric indices as keys, which no column key (a string) equals under \<^verbatim>\<open>===\<close>.
\<close>

definition isArrayLike :: "obj \<Rightarrow> bool" where
  "isArrayLike ob =
     (case objGet ob ''length'' of
        JNum n \<Rightarrow> 0 \<le> n \<and> n \<le> 9007199254740991
      | _ \<Rightarrow> False)"

text \<open>
  One round of \<^verbatim>\<open>schema.internalNames.forEach\<close>: a truthy internal field goes to
  \<^verbatim>\<open>outRow\<close> and is deleted from the row.
\<close>

definition moveInternal :: "IRow \<times> IRow \<Rightarrow> string \<Rightarrow> IRow \<times> IRow" where
  "moveInternal st name' =
     (case st of (row, outRow) \<Rightarrow>
        if truthy (objGet row name')
        then (objDelete name' row, objSet name' (objGet row name') outRow)
        else (row, outRow))"

text \<open>One round of \<^verbatim>\<open>_.forEach(row, ...)\<close> for the key \<open>key'\<close>.\<close>

definition mapColumn :: "IDtableMetadataColumn list \<Rightarrow> IRow \<Rightarrow> IRow \<Rightarrow> string \<Rightarrow> IRow" where
  "mapColumn columns row outRow key' =
     (case find (\<lambda>c. key c = key') columns of
        None \<Rightarrow> outRow
      | Some column \<Rightarrow> objSet (name column) (objGet row key') outRow)"

definition rowMapColumnsFromKeysToNames :: "IRow \<Rightarrow> IDtableMetadataColumn list \<Rightarrow> IRow" where
  "rowMapColumnsFromKeysToNames row columns =
     (case foldl moveInternal (row, []) internalNames of (row', outRow) \<Rightarrow>
        if isArrayLike row' then outRow
        else foldl (mapColumn columns row') outRow (objKeys row'))"

section \<open>JavaScript comparisons\<close>

text \<open>
  What the model leaves to the JavaScript runtime and to lodash: a relational comparison that
  has to coerce its operands beyond the cases written out in \<open>jsGreater\<close>, the identity of two
  objects, lodash's lookup of a property path in an object that has no property of that name,
  and the number of arguments the engine passes in one call. The properties below hold for
  every such runtime.
\<close>

record runtime =
  coercedGreater :: "jsval \<Rightarrow> jsval \<Rightarrow> bool"
  sameObject :: "jsval \<Rightarrow> jsval \<Rightarrow> bool"
  deepGet :: "string \<Rightarrow> obj \<Rightarrow> jsval"
  argumentLimit :: nat

fun isPrimitive :: "jsval \<Rightarrow> bool" where
  "isPrimitive (JArr xs) = False"
| "isPrimitive (JObj ob) = False"
| "isPrimitive JFun = False"
| "isPrimitive v = True"

text \<open>
  The number a string denotes when it is compared with a number, written out for a string of
  one to fifteen decimal digits; any other string (blanks, a sign, a fraction, an exponent,
  another radix, no number at all) is left to the runtime.
\<close>

definition stringToNumber :: "string \<Rightarrow> int option" where
  "stringToNumber s =
     (if s \<noteq> [] \<and> length s \<le> 15 \<and> list_all isDigit s then Some (int (digitsValue s))
      else None)"

text \<open>
  \<^verbatim>\<open>a > b\<close>: two strings compare by code units; two numbers by value; a number and a string
  by value, the string read as a number; and a comparison with \<^verbatim>\<open>undefined\<close> is false.
  \<^verbatim>\<open>a < b\<close> is \<^verbatim>\<open>b > a\<close>.
\<close>

fun jsGreater :: "runtime \<Rightarrow> jsval \<Rightarrow> jsval \<Rightarrow> bool" where
  "jsGreater rt (JStr s) (JStr t) = (t < s)"
| "jsGreater rt (JNum m) (JNum n) = (n < m)"
| "jsGreater rt (JNum m) (JStr t) =
     (case stringToNumber t of
        Some n \<Rightarrow> n < m
      | None \<Rightarrow> coercedGreater rt (JNum m) (JStr t))"
| "jsGreater rt (JStr s) (JNum n) =
     (case stringToNumber s of
        Some m \<Rightarrow> n < m
      | None \<Rightarrow> coercedGreater rt (JStr s) (JNum n))"
| "jsGreater rt JUndefined b = False"
| "jsGreater rt a JUndefined = False"
| "jsGreater rt a b = coercedGreater rt a b"

text \<open>\<^verbatim>\<open>a === b\<close>\<close>

definition strictEquals :: "runtime \<Rightarrow> jsval \<Rightarrow> jsval \<Rightarrow> bool" where
  "strictEquals rt a b =
     (if isPrimitive a \<and> isPrimitive b then a = b
      else if isPrimitive a \<or> isPrimitive b then False
      else sameObject rt a b)"

section \<open>Trigger: time filter and sort\<close>

definition rowsTimeFilter :: "runtime \<Rightarrow> IRow list \<Rightarrow> string \<Rightarrow> string \<Rightarrow> IRow list" where
  "rowsTimeFilter rt rows columnName startDate =
     filter (\<lambda>row. jsGreater rt (objGet row columnName) (JStr startDate)) (rowsSequence rows)"

text \<open>
  lodash's \<^verbatim>\<open>compareAscending\<close>, without symbols and NaN: \<^verbatim>\<open>undefined\<close> sorts last,
  \<^verbatim>\<open>null\<close> before it.
\<close>

definition compareAscending :: "runtime \<Rightarrow> jsval \<Rightarrow> jsval \<Rightarrow> int" where
  "compareAscending rt value other =
     (if \<not> strictEquals rt value other then
        (if (other \<noteq> JNull \<and> jsGreater rt value other)
            \<or> (value = JNull \<and> other \<noteq> JUndefined)
            \<or> value = JUndefined
         then 1
         else if (value \<noteq> JNull \<and> jsGreater rt other value)
            \<or> (other = JNull \<and> value \<noteq> JUndefined)
            \<or> other = JUndefined
         then - 1
         else 0)
      else 0)"

text \<open>
  \<^verbatim>\<open>_.orderBy\<close> maps every element to its criteria, its index and itself, sorts these
  entries with \<^verbatim>\<open>compareMultiple\<close> (all orders ascending here; equal criteria fall back to
  the index), and returns the elements.
\<close>

type_synonym sortEntry = "jsval list \<times> nat \<times> IRow"

fun compareCriteria :: "runtime \<Rightarrow> jsval list \<Rightarrow> jsval list \<Rightarrow> int" where
  "compareCriteria rt (v # vs) (w # ws) =
     (let result = compareAscending rt v w
      in if result \<noteq> 0 then result else compareCriteria rt vs ws)"
| "compareCriteria rt vs ws = 0"

definition compareMultiple :: "runtime \<Rightarrow> sortEntry \<Rightarrow> sortEntry \<Rightarrow> int" where
  "compareMultiple rt object other =
     (let result = compareCriteria rt (fst object) (fst other)
      in if result \<noteq> 0 then result else int (fst (snd object)) - int (fst (snd other)))"

text \<open>
  \<^verbatim>\<open>Array.prototype.sort\<close> with a comparer, as insertion from the right. With a consistent
  comparer every sort gives the same array, since \<^verbatim>\<open>compareMultiple\<close> never ties.
\<close>

fun insertSorted :: "('a \<Rightarrow> 'a \<Rightarrow> int) \<Rightarrow> 'a \<Rightarrow> 'a list \<Rightarrow> 'a list" where
  "insertSorted comparer x [] = [x]"
| "insertSorted comparer x (y # ys) =
     (if comparer x y \<le> 0 then x # y # ys else y # insertSorted comparer x ys)"

definition baseSortBy :: "('a \<Rightarrow> 'a \<Rightarrow> int) \<Rightarrow> 'a list \<Rightarrow> 'a list" where
  "baseSortBy comparer array = foldr (insertSorted comparer) array []"

text \<open>
  An iteratee given as a string is a property name, unless it has a dot or a bracket and the
  object has no property of that very name (\<^verbatim>\<open>path in object\<close>, own or inherited): then lodash
  reads it as a path.
\<close>

definition isDeepPath :: "string \<Rightarrow> bool" where
  "isDeepPath path = (CHR ''.'' \<in> set path \<or> CHR ''['' \<in> set path)"

definition hasProperty :: "obj \<Rightarrow> string \<Rightarrow> bool" where
  "hasProperty ob k = (k \<in> set (objKeys ob) \<or> k \<in> set objectPrototypeNames)"

definition property :: "runtime \<Rightarrow> string \<Rightarrow> obj \<Rightarrow> jsval" where
  "property rt path ob =
     (if isDeepPath path \<and> \<not> hasProperty ob path then deepGet rt path ob
      else objGet ob path)"

definition orderBy :: "runtime \<Rightarrow> IRow list \<Rightarrow> string list \<Rightarrow> IRow list" where
  "orderBy rt collection iteratees =
     map (\<lambda>entry. snd (snd entry))
       (baseSortBy (compareMultiple rt)
          (map (\<lambda>(index, value). (map (\<lambda>path. property rt path value) iteratees, index, value))
             (enumerate 0 collection)))"

definition rowsTimeSort :: "runtime \<Rightarrow> IRow list \<Rightarrow> string \<Rightarrow> IRow list" where
  "rowsTimeSort rt rows columnName = orderBy rt (rowsSequence rows) [columnName, ''_seq'']"

text \<open>
  Reference notions for the trigger. A timestamp column holds in every row a string or
  nothing, and \<^verbatim>\<open>_seq\<close> a number or nothing, as \<^verbatim>\<open>IRow\<close> declares them. A row is after the
  cursor when it holds a string greater than it. The rank of a row by \<^verbatim>\<open>_seq\<close> puts the
  numbers first, in their order, and the rows without one last. Then the timestamp and the
  sequence number of a row, a collection whose rows all hold a string in a column, one whose
  rows all hold a number in \<^verbatim>\<open>_seq\<close>, the entries \<^verbatim>\<open>_.orderBy\<close> sorts and their sort key, and a
  runtime for examples.
\<close>

fun isTimestamp :: "jsval \<Rightarrow> bool" where
  "isTimestamp (JStr s) = True"
| "isTimestamp JUndefined = True"
| "isTimestamp v = False"

definition isTimestampColumn :: "string \<Rightarrow> IRow list \<Rightarrow> bool" where
  "isTimestampColumn columnName rows =
     list_all (\<lambda>row. isTimestamp (objGet row columnName)) rows"

fun isSeqValue :: "jsval \<Rightarrow> bool" where
  "isSeqValue (JNum n) = True"
| "isSeqValue JUndefined = True"
| "isSeqValue v = False"

definition hasSeqNumbers :: "IRow list \<Rightarrow> bool" where
  "hasSeqNumbers rows = list_all (\<lambda>row. isSeqValue (objGet row ''_seq'')) rows"

definition isAfter :: "string \<Rightarrow> string \<Rightarrow> IRow \<Rightarrow> bool" where
  "isAfter columnName startDate row =
     (case objGet row columnName of JStr s \<Rightarrow> startDate < s | _ \<Rightarrow> False)"

fun seqRankOf :: "jsval \<Rightarrow> nat \<times> int" where
  "seqRankOf (JNum n) = (0, n)"
| "seqRankOf v = (1, 0)"

definition seqRank :: "IRow \<Rightarrow> nat \<times> int" where
  "seqRank row = seqRankOf (objGet row ''_seq'')"

definition timestampOf :: "string \<Rightarrow> IRow \<Rightarrow> string" where
  "timestampOf columnName row = (case objGet row columnName of JStr s \<Rightarrow> s | _ \<Rightarrow> [])"

definition seqOf :: "IRow \<Rightarrow> int" where
  "seqOf row = (case objGet row ''_seq'' of JNum n \<Rightarrow> n | _ \<Rightarrow> 0)"

definition isStringColumn :: "string \<Rightarrow> IRow list \<Rightarrow> bool" where
  "isStringColumn columnName rows = list_all (\<lambda>row. isJStr (objGet row columnName)) rows"

fun isJNum :: "jsval \<Rightarrow> bool" where
  "isJNum (JNum n) = True"
| "isJNum v = False"

definition isSequenced :: "IRow list \<Rightarrow> bool" where
  "isSequenced rows = list_all (\<lambda>row. isJNum (objGet row ''_seq'')) rows"

definition entriesOf :: "string \<Rightarrow> IRow list \<Rightarrow> sortEntry list" where
  "entriesOf c rows =
     map (\<lambda>(index, value). ([objGet value c, objGet value ''_seq''], index, value))
       (enumerate 0 rows)"

definition entryKey :: "string \<Rightarrow> sortEntry \<Rightarrow> string \<times> (nat \<times> int) \<times> nat" where
  "entryKey c entry =
     (timestampOf c (snd (snd entry)), seqRank (snd (snd entry)), fst (snd entry))"

definition rt0 :: runtime where
  "rt0 = \<lparr>coercedGreater = (\<lambda>a b. False), sameObject = (\<lambda>a b. False),
          deepGet = (\<lambda>path ob. JUndefined), argumentLimit = 125000\<rparr>"

section \<open>Column-name parsing\<close>

text \<open>
  The regular expressions of \<^verbatim>\<open>columnNamesToArray\<close> need: character classes, sequence,
  alternative, greedy and lazy \<^verbatim>\<open>*\<close>, one capture group and \<^verbatim>\<open>$\<close> (without the
  multiline flag: the end of the input).
\<close>

datatype regex =
    Empty
  | CharSet "char \<Rightarrow> bool"
  | Seq regex regex
  | Alt regex regex
  | Star bool regex
  | Group regex
  | EndOfInput

text \<open>
  A state of the backtracking matcher: the capture made so far and the rest of the input.
  \<open>matches r st\<close> lists the states in which a match of \<open>r\<close> from \<open>st\<close> can end, in the
  order in which ECMAScript's matcher tries them; the first one that lets the rest of the
  pattern succeed is taken. An iteration of \<^verbatim>\<open>*\<close> that consumes nothing is rejected, as
  the language prescribes.
\<close>

type_synonym matchState = "string option \<times> string"

function matches :: "regex \<Rightarrow> matchState \<Rightarrow> matchState list" where
  "matches Empty st = [st]"
| "matches (CharSet p) (cap, []) = []"
| "matches (CharSet p) (cap, x # xs) = (if p x then [(cap, xs)] else [])"
| "matches (Seq r1 r2) st = concat (map (matches r2) (matches r1 st))"
| "matches (Alt r1 r2) st = matches r1 st @ matches r2 st"
| "matches (Star greedy r) st =
     (let more = concat (map (matches (Star greedy r))
                   (filter (\<lambda>st'. length (snd st') < length (snd st)) (matches r st)))
      in if greedy then more @ [st] else st # more)"
| "matches (Group r) st =
     map (\<lambda>st'. (Some (take (length (snd st) - length (snd st')) (snd st)), snd st'))
       (matches r st)"
| "matches EndOfInput st = (if snd st = [] then [st] else [])"
  by pat_completeness auto

termination
  by (relation "measures [\<lambda>(r, st). size r, \<lambda>(r, st). length (snd st)]") auto

declare matches.simps(6) [simp del]

text \<open>A match attempt anchored at the start of \<open>s\<close> (the sticky flag of \<^verbatim>\<open>split\<close>).\<close>

definition regexExec :: "regex \<Rightarrow> string \<Rightarrow> matchState option" where
  "regexExec r s = (case matches r (None, s) of [] \<Rightarrow> None | st # _ \<Rightarrow> Some st)"

text \<open>
  \<^verbatim>\<open>\s\<close> on code units below 256: tab, line feed, vertical tab, form feed, carriage
  return, space and no-break space.
\<close>

definition isSpace :: "char \<Rightarrow> bool" where
  "isSpace c = ((of_char c :: nat) \<in> {9, 10, 11, 12, 13, 32, 160})"

definition backslash :: char where
  "backslash = CHR 0x5C"

definition comma :: char where
  "comma = CHR '',''"

text \<open>
  The splitter \<^verbatim>\<open>/\s*((?:[^\\,]*?(?:\\[\s\S])*)*?)\s*(?:,|$)/\<close> and its parts:
  \<open>wsR\<close> is \<^verbatim>\<open>\s\<close>, \<open>plainR\<close> is \<^verbatim>\<open>[^\\,]\<close>, \<open>escR\<close> is \<^verbatim>\<open>\\[\s\S]\<close>, \<open>iterR\<close> is
  the body of the capture group's repetition, \<open>tailR\<close> is \<^verbatim>\<open>\s*(?:,|$)\<close>.
\<close>

definition wsR :: regex where
  "wsR = CharSet isSpace"

definition plainR :: regex where
  "plainR = CharSet (\<lambda>c. c \<noteq> backslash \<and> c \<noteq> comma)"

definition escR :: regex where
  "escR = Seq (CharSet (\<lambda>c. c = backslash)) (CharSet (\<lambda>c. True))"

definition iterR :: regex where
  "iterR = Seq (Star False plainR) (Star True escR)"

definition tailR :: regex where
  "tailR = Seq (Star True wsR) (Alt (CharSet (\<lambda>c. c = comma)) EndOfInput)"

definition splitter :: regex where
  "splitter = Seq (Star True wsR) (Seq (Group (Star False iterR)) tailR)"

text \<open>
  \<^verbatim>\<open>String.prototype.split\<close> with a regular expression: \<open>p\<close> is the end of the last
  match, \<open>q\<close> the position tried next; each match contributes the text since \<open>p\<close> and
  the capture (\<open>None\<close> is \<^verbatim>\<open>undefined\<close>).
\<close>

function splitLoop :: "regex \<Rightarrow> string \<Rightarrow> nat \<Rightarrow> nat \<Rightarrow> string option list \<Rightarrow> string option list" where
  "splitLoop r S p q A =
     (if q < length S then
        (case regexExec r (drop q S) of
           None \<Rightarrow> splitLoop r S p (q + 1) A
         | Some (cap, rest) \<Rightarrow>
             (let e = min (q + (length (drop q S) - length rest)) (length S)
              in if e = p then splitLoop r S p (q + 1) A
                 else splitLoop r S e e (A @ [Some (take (q - p) (drop p S)), cap])))
      else A @ [Some (drop p S)])"
  by pat_completeness auto

termination
  by (relation "measures [\<lambda>(r, S, p, q, A). length S - q, \<lambda>(r, S, p, q, A). if p = q then 0 else 1]")
     (auto split: if_splits)

declare splitLoop.simps [simp del]

definition regexSplit :: "regex \<Rightarrow> string \<Rightarrow> string option list" where
  "regexSplit r S =
     (if S = [] then (case regexExec r S of None \<Rightarrow> [Some S] | Some z \<Rightarrow> [])
      else splitLoop r S 0 0 [])"

text \<open>\<^verbatim>\<open>s.replace(/\\([\s\S])/gm, (_, $1) => $1)\<close>, scanning from the left.\<close>

fun unescape :: "string \<Rightarrow> string" where
  "unescape [] = []"
| "unescape [x] = [x]"
| "unescape (x # y # ys) = (if x = backslash then y # unescape ys else x # unescape (y # ys))"

text \<open>\<^verbatim>\<open>.filter(s => s.length)\<close>; reading the length of \<^verbatim>\<open>undefined\<close> throws.\<close>

fun filterLength :: "string option list \<Rightarrow> error + string list" where
  "filterLength [] = Inr []"
| "filterLength (None # xs) = Inl TypeError"
| "filterLength (Some s # xs) =
     (case filterLength xs of
        Inl e \<Rightarrow> Inl e
      | Inr ys \<Rightarrow> Inr (if length s \<noteq> 0 then s # ys else ys))"

text \<open>\<^verbatim>\<open>Array.prototype.indexOf\<close>\<close>

definition indexOf :: "'a list \<Rightarrow> 'a \<Rightarrow> int" where
  "indexOf xs x = (if x \<in> set xs then int (length (takeWhile (\<lambda>y. y \<noteq> x) xs)) else - 1)"

text \<open>
  \<^verbatim>\<open>columnNames\<close> is falsy when it is the empty string (or \<^verbatim>\<open>undefined\<close>, which callers
  pass as the empty string here); \<^verbatim>\<open>normalize\<close> is the identity on these strings.
\<close>

definition columnNamesToArray :: "string \<Rightarrow> error + string list" where
  "columnNamesToArray columnNames =
     (if columnNames \<noteq> [] then
        (case filterLength (regexSplit splitter columnNames) of
           Inl e \<Rightarrow> Inl e
         | Inr pieces \<Rightarrow>
             (let unescaped = map unescape pieces;
                  named = filter (\<lambda>s. \<not> (1 + indexOf ([] # internalNames) s \<noteq> 0)) unescaped
              in Inr (map snd (filter (\<lambda>(index, s). indexOf named s = int index)
                                 (enumerate 0 named)))))
      else Inr [])"

text \<open>
  The matcher in continuation style: \<open>runK r K st\<close> is the first result \<open>K\<close> gives on the
  states of \<open>matches r st\<close>.
\<close>

definition orElse :: "'b option \<Rightarrow> 'b option \<Rightarrow> 'b option" where
  "orElse a b = (case a of Some y \<Rightarrow> Some y | None \<Rightarrow> b)"

fun firstSome :: "('a \<Rightarrow> 'b option) \<Rightarrow> 'a list \<Rightarrow> 'b option" where
  "firstSome K [] = None"
| "firstSome K (x # xs) = orElse (K x) (firstSome K xs)"

definition runK :: "regex \<Rightarrow> (matchState \<Rightarrow> 'b option) \<Rightarrow> matchState \<Rightarrow> 'b option" where
  "runK r K st = firstSome K (matches r st)"

text \<open>
  What one match of the splitter amounts to: \<open>tailOK t\<close> says that \<open>t\<close> is white space
  followed by a comma or the end; \<open>scanTok\<close> walks over plain characters and escape pairs
  to the first place where that holds.
\<close>

definition tailOK :: "string \<Rightarrow> bool" where
  "tailOK t = (case dropWhile isSpace t of [] \<Rightarrow> True | x # xs \<Rightarrow> x = comma)"

fun scanTok :: "string \<Rightarrow> string option" where
  "scanTok [] = Some []"
| "scanTok [x] = (if tailOK [x] then Some [x] else if x = backslash then None else Some [])"
| "scanTok (x # y # ys) =
     (if tailOK (x # y # ys) then Some (x # y # ys)
      else if x = backslash then scanTok ys
      else scanTok (y # ys))"

definition afterTail :: "string \<Rightarrow> string" where
  "afterTail t' = (case dropWhile isSpace t' of [] \<Rightarrow> [] | x # xs \<Rightarrow> xs)"

definition execResult :: "string \<Rightarrow> matchState option" where
  "execResult s =
     (let t = dropWhile isSpace s
      in case scanTok t of
           None \<Rightarrow> None
         | Some t' \<Rightarrow> Some (Some (take (length t - length t') t), afterTail t'))"

text \<open>
  Reference notions for column-name parsing. A string is well escaped when every backslash
  that is not itself escaped has a character after it. \<open>splitUnescaped\<close> splits at the
  commas that are not escaped, \<open>trimToken\<close> removes the white space around a token (an
  escaped white-space character is kept), and \<open>columnNamesSpec\<close> is the parse the
  specification describes: split, trim, unescape, drop the empty and the reserved names,
  keep first occurrences.
\<close>

fun wellEscaped :: "string \<Rightarrow> bool" where
  "wellEscaped [] = True"
| "wellEscaped [x] = (x \<noteq> backslash)"
| "wellEscaped (x # y # ys) = (if x = backslash then wellEscaped ys else wellEscaped (y # ys))"

fun consHead :: "string \<Rightarrow> string list \<Rightarrow> string list" where
  "consHead pre [] = [pre]"
| "consHead pre (seg # segs) = (pre @ seg) # segs"

fun splitUnescaped :: "string \<Rightarrow> string list" where
  "splitUnescaped [] = [[]]"
| "splitUnescaped [x] = (if x = comma then [[], []] else [[x]])"
| "splitUnescaped (x # y # ys) =
     (if x = comma then [] # splitUnescaped (y # ys)
      else if x = backslash then consHead [x, y] (splitUnescaped ys)
      else consHead [x] (splitUnescaped (y # ys)))"

fun trimRight :: "string \<Rightarrow> string" where
  "trimRight [] = []"
| "trimRight [x] = (if isSpace x then [] else [x])"
| "trimRight (x # y # ys) =
     (if list_all isSpace (x # y # ys) then []
      else if x = backslash then x # y # trimRight ys
      else x # trimRight (y # ys))"

definition trimToken :: "string \<Rightarrow> string" where
  "trimToken seg = trimRight (dropWhile isSpace seg)"

definition columnNamesSpec :: "string \<Rightarrow> string list" where
  "columnNamesSpec s =
     firstSeen {}
       (filter (\<lambda>t. t \<noteq> [] \<and> t \<notin> set internalNames)
          (map (\<lambda>seg. unescape (trimToken seg)) (splitUnescaped s)))"

text \<open>The first segment of a string and, after an unescaped comma, the rest.\<close>

fun takeSegment :: "string \<Rightarrow> string \<times> string option" where
  "takeSegment [] = ([], None)"
| "takeSegment [x] = (if x = comma then ([], Some []) else ([x], None))"
| "takeSegment (x # y # ys) =
     (if x = comma then ([], Some (y # ys))
      else if x = backslash then (x # y # fst (takeSegment ys), snd (takeSegment ys))
      else (x # fst (takeSegment (y # ys)), snd (takeSegment (y # ys))))"

definition restOf :: "string option \<Rightarrow> string" where
  "restOf r = (case r of None \<Rightarrow> [] | Some rest \<Rightarrow> rest)"


section \<open>Table columns and the trigger\<close>

text \<open>The column types the node supports: \<^verbatim>\<open>schema.columnTypes\<close>, a plain object.\<close>

definition columnTypes :: obj where
  "columnTypes =
     [(''text'', JStr ''Text''), (''long-text'', JStr ''Long Text''),
      (''number'', JStr ''Number''), (''collaborator'', JStr ''Collaborator''),
      (''date'', JStr ''Date''), (''duration'', JStr ''Duration''),
      (''single-select'', JStr ''Single Select''),
      (''multiple-select'', JStr ''Multiple Select''), (''email'', JStr ''Email''),
      (''url'', JStr ''URL''), (''rate'', JStr ''Rating''), (''checkbox'', JStr ''Checkbox''),
      (''formula'', JStr ''Formula''), (''creator'', JStr ''Creator''),
      (''ctime'', JStr ''Created time''), (''last-modifier'', JStr ''Last Modifier''),
      (''mtime'', JStr ''Last modified time''), (''auto-number'', JStr ''Auto number'')]"

text \<open>\<^verbatim>\<open>!!schema.columnTypes[column.type]\<close>\<close>

definition dtableSchemaIsColumn :: "IDtableMetadataColumn \<Rightarrow> bool" where
  "dtableSchemaIsColumn column = truthy (objGet columnTypes (type column))"

definition dtableSchemaColumns :: "IDtableMetadataColumn list \<Rightarrow> IDtableMetadataColumn list" where
  "dtableSchemaColumns columns = filter dtableSchemaIsColumn columns"

text \<open>A table of the base's metadata (\<^verbatim>\<open>IDtableMetadataTable\<close>: \<^verbatim>\<open>_id\<close>, \<^verbatim>\<open>name\<close>, \<^verbatim>\<open>columns\<close>).\<close>

record IDtableMetadataTable =
  table_id :: string
  table_name :: string
  table_columns :: "IDtableMetadataColumn list"

text \<open>
  \<^verbatim>\<open>apiDtableColumns\<close>. Its first step, \<^verbatim>\<open>ctxStageDtableMetadata\<close>, asks the server for an access
  token and for the metadata; \<open>staged\<close> is how that ends: it throws, it never gets its answer,
  or it leaves \<^verbatim>\<open>ctx.metadata.tables\<close>, which may be \<^verbatim>\<open>undefined\<close>.
\<close>

definition apiDtableColumns ::
  "IDtableMetadataTable list option outcome \<Rightarrow> string \<Rightarrow> IDtableMetadataColumn list outcome" where
  "apiDtableColumns staged tableName =
     (case staged of
        Threw e \<Rightarrow> Threw e
      | Pending \<Rightarrow> Pending
      | Returned None \<Rightarrow> Threw NodeOperationError
      | Returned (Some tables) \<Rightarrow>
          (case find (\<lambda>e. table_name e = tableName) tables of
             None \<Rightarrow> Threw NodeOperationError
           | Some table \<Rightarrow> Returned (dtableSchemaColumns (table_columns table))))"

text \<open>
  The column selection of the row-returning operations, written out in the same words in the
  list branch of \<^verbatim>\<open>SeaTable.execute\<close> and in \<^verbatim>\<open>SeaTableTrigger.poll\<close>:

  \<^verbatim>\<open>const [{name: defaultColumn}] = dtableColumns;\<close>

  \<^verbatim>\<open>columnNames = [defaultColumn, ...columnNames].filter((name) => dtableColumns.find((column) => column.name === name));\<close>

  Destructuring the first element of an empty array throws a \<^verbatim>\<open>TypeError\<close>; \<^verbatim>\<open>find\<close> gives the
  column object (truthy) or \<^verbatim>\<open>undefined\<close>.
\<close>

definition finalColumnNames ::
  "IDtableMetadataColumn list \<Rightarrow> string list \<Rightarrow> error + string list" where
  "finalColumnNames dtableColumns columnNames =
     (case dtableColumns of
        [] \<Rightarrow> Inl TypeError
      | first # others \<Rightarrow>
          (let defaultColumn = name first
           in Inr (filter (\<lambda>n. find (\<lambda>column. name column = n) dtableColumns \<noteq> None)
                     (defaultColumn # columnNames))))"

text \<open>
  What \<^verbatim>\<open>poll\<close> reads from its \<^verbatim>\<open>IPollFunctions\<close> context: the \<^verbatim>\<open>lastTimeChecked\<close> entry of the
  node's static data, the node parameters, the credentials (\<^verbatim>\<open>undefined\<close> when there are none),
  the mode, the clock (\<^verbatim>\<open>moment().utc()\<close>, formatted, and the same instant two minutes earlier),
  and the server: how the metadata staging ends and the replies to the row requests.
\<close>

record IPollFunctions =
  getWorkflowStaticData :: "string option"
  paramTableName :: string
  paramOperation :: string
  paramColumnNames :: "string option"
  getCredentials :: "obj option"
  getMode :: string
  utcNow :: string
  utcTwoMinutesAgo :: string
  serverMetadata :: "IDtableMetadataTable list option outcome"
  serverReplies :: "reply list"

definition rowsEndpoint :: string where
  "rowsEndpoint = ''/dtable-server/api/v1/dtables/{{dtable_uuid}}/rows/''"

text \<open>
  \<^verbatim>\<open>nowMoment\<close> and \<^verbatim>\<open>lastTimeCheckedMoment\<close> are one moment object, and \<^verbatim>\<open>subtract\<close> changes it in
  place: in manual mode both formatted times are two minutes back.
\<close>

definition pollEndDate :: "IPollFunctions \<Rightarrow> string" where
  "pollEndDate this = (if getMode this = ''manual'' then utcTwoMinutesAgo this else utcNow this)"

text \<open>\<^verbatim>\<open>webhookData.lastTimeChecked as string || lastTimeChecked\<close>\<close>

definition pollStartDate :: "IPollFunctions \<Rightarrow> string" where
  "pollStartDate this =
     (case getWorkflowStaticData this of
        None \<Rightarrow> pollEndDate this
      | Some s \<Rightarrow> if s \<noteq> [] then s else pollEndDate this)"

definition pollTriggerColumn :: "IPollFunctions \<Rightarrow> string" where
  "pollTriggerColumn this = (if paramOperation this = ''create'' then ''_ctime'' else ''_mtime'')"

text \<open>
  The end of \<^verbatim>\<open>poll\<close>, from the test \<^verbatim>\<open>Array.isArray(rows.rows) && rows.rows.length\<close> on:
  \<open>rowsField\<close> is \<^verbatim>\<open>rows.rows\<close>, an array or not. The result is \<^verbatim>\<open>null\<close> (\<open>None\<close>) or the one
  list of items, each item the row under \<^verbatim>\<open>json\<close>.
\<close>

definition pollRows ::
  "runtime \<Rightarrow> IPollFunctions \<Rightarrow> IDtableMetadataColumn list \<Rightarrow> string list \<Rightarrow> IRow list option
     \<Rightarrow> IRow list option outcome" where
  "pollRows rt this dtableColumns columnNames rowsField =
     (case rowsField of
        None \<Rightarrow> Returned None
      | Some rows \<Rightarrow>
          if length rows \<noteq> 0 then
            (if getMode this = ''manual'' \<and> objGet (hd rows) (pollTriggerColumn this) = JUndefined
             then Threw NodeOperationError
             else
               (let rows1 = rowsTimeFilter rt rows (pollTriggerColumn this) (pollStartDate this);
                    rows2 = rowsTimeSort rt rows1 (pollTriggerColumn this)
                in case finalColumnNames dtableColumns columnNames of
                     Inl e \<Rightarrow> Threw e
                   | Inr names \<Rightarrow> Returned (Some (rowsFormatColumns rows2 names))))
          else Returned None)"

text \<open>
  \<^verbatim>\<open>poll\<close>, in the order of the source; the second component is the \<^verbatim>\<open>lastTimeChecked\<close> entry of
  the static data afterwards. \<^verbatim>\<open>columnNamesToArray\<close> gives \<^verbatim>\<open>[]\<close> for a missing field, as for the
  empty string; \<^verbatim>\<open>apiCtx\<close> assigns to \<^verbatim>\<open>api.server\<close>, a \<^verbatim>\<open>TypeError\<close> without credentials.
\<close>

definition poll :: "runtime \<Rightarrow> IPollFunctions \<Rightarrow> IRow list option outcome \<times> string option" where
  "poll rt this =
     (let webhookData = getWorkflowStaticData this;
          table = paramTableName this
      in case columnNamesToArray
                (case paramColumnNames this of None \<Rightarrow> [] | Some s \<Rightarrow> s) of
           Inl e \<Rightarrow> (Threw e, webhookData)
         | Inr columnNames \<Rightarrow>
        (case getCredentials this of
           None \<Rightarrow> (Threw TypeError, webhookData)
         | Some api \<Rightarrow>
        (case apiDtableColumns (serverMetadata this) table of
           Threw e \<Rightarrow> (Threw e, webhookData)
         | Pending \<Rightarrow> (Pending, webhookData)
         | Returned dtableColumns \<Rightarrow>
        (let qs = objSet ''table_name'' (JStr table) []
         in case fst (apiRequestAllItems (argumentLimit rt) ''GET'' rowsEndpoint [] (Some qs)
                       (serverReplies this)) of
              Threw e \<Rightarrow> (Threw e, webhookData)
            | Pending \<Rightarrow> (Pending, webhookData)
            | Returned rows \<Rightarrow>
                (pollRows rt this dtableColumns columnNames (Some rows),
                 Some (pollEndDate this))))))"
section \<open>Properties of plain objects\<close>

lemma map_of_objUpdate:
  "map_of (objUpdate k v ob) k' = (if k' = k \<and> k \<in> fst ` set ob then Some v else map_of ob k')"
  by (induction ob) (auto simp: rev_image_eqI)

lemma map_of_objInsertIndex:
  "k \<notin> fst ` set ob \<Longrightarrow> map_of (objInsertIndex k v ob) k' = (if k' = k then Some v else map_of ob k')"
  by (induction ob) auto

lemma map_of_objCreate:
  "k \<notin> fst ` set ob \<Longrightarrow> map_of (objCreate k v ob) k' = (if k' = k then Some v else map_of ob k')"
  by (auto simp: objCreate_def map_of_objInsertIndex map_add_def split: option.splits dest: map_of_SomeD
      simp: rev_image_eqI weak_map_of_SomeI)

lemma map_of_objSet:
  "k \<noteq> ''__proto__'' \<or> k \<in> set (objKeys ob) \<Longrightarrow>
   map_of (objSet k v ob) k' = (if k' = k then Some v else map_of ob k')"
  by (auto simp: objSet_def objKeys_def map_of_objUpdate map_of_objCreate)

lemma map_of_objSet_proto:
  "''__proto__'' \<notin> set (objKeys ob) \<Longrightarrow> objSet ''__proto__'' v ob = ob"
  by (simp add: objSet_def)

lemma objGet_objSet_same:
  "k \<noteq> ''__proto__'' \<or> k \<in> set (objKeys ob) \<Longrightarrow> objGet (objSet k v ob) k = v"
  by (simp add: objGet_def map_of_objSet)

lemma objGet_objSet_other:
  "k' \<noteq> k \<Longrightarrow> objGet (objSet k v ob) k' = objGet ob k'"
  by (cases "k \<noteq> ''__proto__'' \<or> k \<in> set (objKeys ob)")
     (auto simp: objGet_def map_of_objSet map_of_objSet_proto)

section \<open>Properties of \<^verbatim>\<open>rowsSequence\<close>\<close>

lemma length_rowsSequenceFrom: "length (rowsSequenceFrom i rows) = length rows"
  by (induction rows arbitrary: i) auto

lemma nth_rowsSequenceFrom:
  "j < length rows \<Longrightarrow>
   rowsSequenceFrom i rows ! j = objSet ''_seq'' (JNum (int (i + j) + 1)) (rows ! j)"
proof (induction rows arbitrary: i j)
  case Nil
  then show ?case by simp
next
  case (Cons row rows)
  show ?case
  proof (cases j)
    case 0
    then show ?thesis by simp
  next
    case (Suc j')
    with Cons.prems have "j' < length rows" by simp
    from Cons.IH [OF this, of "Suc i"] Suc show ?thesis by (simp add: add.commute)
  qed
qed

text \<open>
  Claim C6. For a non-empty row collection: when the first row has no \<^verbatim>\<open>_seq\<close> (reading it
  gives \<^verbatim>\<open>undefined\<close>), \<^verbatim>\<open>rowsSequence\<close> sets \<^verbatim>\<open>_seq\<close> to 1, 2, ..., n on the rows in
  their current order and changes no other field; when the first row has a \<^verbatim>\<open>_seq\<close>, the
  whole collection is left as it is, whatever the later rows hold: only the first row is
  inspected.
\<close>

theorem rowsSequence_spec:
  assumes "rows \<noteq> []"
  shows "(objGet (hd rows) ''_seq'' = JUndefined \<longrightarrow>
            length (rowsSequence rows) = length rows \<and>
            (\<forall>i < length rows.
               rowsSequence rows ! i = objSet ''_seq'' (JNum (int i + 1)) (rows ! i) \<and>
               objGet (rowsSequence rows ! i) ''_seq'' = JNum (int i + 1) \<and>
               (\<forall>k. k \<noteq> ''_seq'' \<longrightarrow>
                  objGet (rowsSequence rows ! i) k = objGet (rows ! i) k)))
       \<and> (objGet (hd rows) ''_seq'' \<noteq> JUndefined \<longrightarrow> rowsSequence rows = rows)"
proof (cases rows)
  case Nil
  with assms show ?thesis by simp
next
  case (Cons first rest)
  show ?thesis
  proof (intro conjI impI allI)
    assume "objGet (hd rows) ''_seq'' \<noteq> JUndefined"
    with Cons show "rowsSequence rows = rows" by (simp add: rowsSequence_def)
  next
    assume u: "objGet (hd rows) ''_seq'' = JUndefined"
    with Cons have eq: "rowsSequence rows = rowsSequenceFrom 0 rows"
      by (simp add: rowsSequence_def)
    show "length (rowsSequence rows) = length rows"
      by (simp add: eq length_rowsSequenceFrom)
    fix i assume i: "i < length rows"
    show "rowsSequence rows ! i = objSet ''_seq'' (JNum (int i + 1)) (rows ! i)"
      using nth_rowsSequenceFrom [OF i, of 0] by (simp add: eq)
    then show "objGet (rowsSequence rows ! i) ''_seq'' = JNum (int i + 1)"
      by (simp add: objGet_objSet_same)
    fix k :: string assume "k \<noteq> ''_seq''"
    with \<open>rowsSequence rows ! i = objSet ''_seq'' (JNum (int i + 1)) (rows ! i)\<close>
    show "objGet (rowsSequence rows ! i) k = objGet (rows ! i) k"
      by (simp add: objGet_objSet_other)
  qed
qed

theorem rowsSequence_spec_witness:
  "length (rowsSequence [[(''a'', JNum 1)], [(''_seq'', JNum 7)], []]) = 3
   \<and> rowsSequence [[(''a'', JNum 1)], [(''_seq'', JNum 7)], []] ! 0 =
       [(''a'', JNum 1), (''_seq'', JNum 1)]
   \<and> rowsSequence [[(''a'', JNum 1)], [(''_seq'', JNum 7)], []] ! 1 = [(''_seq'', JNum 2)]
   \<and> rowsSequence [[(''a'', JNum 1)], [(''_seq'', JNum 7)], []] ! 2 = [(''_seq'', JNum 3)]
   \<and> rowsSequence [[(''_seq'', JNum 7)], [(''a'', JNum 1)], []] =
       [[(''_seq'', JNum 7)], [(''a'', JNum 1)], []]"
proof -
  let ?r1 = "[[(''a'', JNum 1)], [(''_seq'', JNum 7)], []] :: IRow list"
  let ?r2 = "[[(''_seq'', JNum 7)], [(''a'', JNum 1)], []] :: IRow list"
  have n1: "?r1 \<noteq> []" and n2: "?r2 \<noteq> []" by simp_all
  have u1: "objGet (hd ?r1) ''_seq'' = JUndefined"
    by (simp add: objGet_def objectPrototypeNames_def)
  have u2: "objGet (hd ?r2) ''_seq'' \<noteq> JUndefined"
    by (simp add: objGet_def)
  have s: "\<not> isArrayIndex ''_seq''"
    by (simp add: isArrayIndex_def isDigit_def)
  note c1 = rowsSequence_spec [OF n1, THEN conjunct1, THEN mp, OF u1]
  note b = c1 [THEN conjunct2, rule_format, THEN conjunct1]
  have "length (rowsSequence ?r1) = 3"
    using c1 [THEN conjunct1] by simp
  moreover have "rowsSequence ?r1 ! 0 = [(''a'', JNum 1), (''_seq'', JNum 1)]"
    using b [of 0] by (simp add: objSet_def objKeys_def objCreate_def s)
  moreover have "rowsSequence ?r1 ! 1 = [(''_seq'', JNum 2)]"
    using b [of 1] by (simp add: objSet_def objKeys_def)
  moreover have "rowsSequence ?r1 ! 2 = [(''_seq'', JNum 3)]"
    using b [of 2] by (simp add: objSet_def objKeys_def objCreate_def s)
  moreover have "rowsSequence ?r2 = ?r2"
    by (rule rowsSequence_spec [OF n2, THEN conjunct2, THEN mp, OF u2])
  ultimately show ?thesis by simp
qed

section \<open>Properties of \<^verbatim>\<open>rowFormatColumns\<close>\<close>

lemma rowFormatColumn_whitelist:
  "rowFormatColumn v = (if isWhitelisted v then v else JNull)"
  by (cases v) auto

lemma objKeys_objUpdate: "objKeys (objUpdate k v ob) = objKeys ob"
  by (induction ob) (auto simp: objKeys_def)

lemma set_objKeys_objInsertIndex:
  "set (objKeys (objInsertIndex k v ob)) = insert k (set (objKeys ob))"
proof (induction ob)
  case Nil
  then show ?case by (simp add: objKeys_def)
next
  case (Cons kv ob)
  obtain k' v' where kv: "kv = (k', v')" by (cases kv)
  show ?case
  proof (cases "isArrayIndex k' \<and> digitsValue k' < digitsValue k")
    case True
    with Cons kv show ?thesis by (auto simp: objKeys_def)
  next
    case False
    with kv show ?thesis by (auto simp: objKeys_def)
  qed
qed

lemma objKeys_objSet_plain:
  "\<not> isArrayIndex k \<Longrightarrow> k \<noteq> ''__proto__'' \<Longrightarrow>
   objKeys (objSet k v ob) = (if k \<in> set (objKeys ob) then objKeys ob else objKeys ob @ [k])"
  by (simp add: objSet_def objKeys_objUpdate objCreate_def) (simp add: objKeys_def)

lemma set_objKeys_objSet:
  "set (objKeys (objSet k v ob)) =
     (if k = ''__proto__'' \<and> k \<notin> set (objKeys ob) then set (objKeys ob)
      else insert k (set (objKeys ob)))"
  by (auto simp: objSet_def objKeys_objUpdate objCreate_def set_objKeys_objInsertIndex)
     (auto simp: objKeys_def)

lemma firstSeen_set: "set (firstSeen seen xs) = set xs - seen"
  by (induction seen xs rule: firstSeen.induct) auto

lemma firstSeen_distinct: "distinct (firstSeen seen xs)"
  by (induction seen xs rule: firstSeen.induct) (auto simp: firstSeen_set)

lemma firstSeen_id: "distinct xs \<Longrightarrow> set xs \<inter> seen = {} \<Longrightarrow> firstSeen seen xs = xs"
  by (induction seen xs rule: firstSeen.induct) auto

lemma objKeys_foldl_objSet:
  assumes "\<forall>c \<in> set cs. \<not> isArrayIndex c \<and> c \<noteq> ''__proto__''"
  shows "objKeys (foldl (\<lambda>outRow c. objSet c (f c) outRow) acc cs) =
         objKeys acc @ firstSeen (set (objKeys acc)) cs"
  using assms
proof (induction cs arbitrary: acc)
  case Nil
  then show ?case by simp
next
  case (Cons c cs)
  then have c: "\<not> isArrayIndex c" "c \<noteq> ''__proto__''" by simp_all
  from Cons have IH: "objKeys (foldl (\<lambda>outRow c. objSet c (f c) outRow) (objSet c (f c) acc) cs) =
         objKeys (objSet c (f c) acc) @ firstSeen (set (objKeys (objSet c (f c) acc))) cs"
    by simp
  show ?case
    by (simp add: IH objKeys_objSet_plain [OF c] insert_absorb)
qed

lemma objGet_foldl_objSet:
  assumes "c \<noteq> ''__proto__''"
  shows "objGet (foldl (\<lambda>outRow c. objSet c (f c) outRow) acc cs) c =
         (if c \<in> set cs then f c else objGet acc c)"
proof (induction cs arbitrary: acc)
  case Nil
  then show ?case by simp
next
  case (Cons d cs)
  show ?case
    using assms by (auto simp: Cons.IH objGet_objSet_same objGet_objSet_other)
qed

lemma set_objKeys_foldl_objSet:
  "''__proto__'' \<notin> set (objKeys acc) \<Longrightarrow>
   set (objKeys (foldl (\<lambda>outRow c. objSet c (f c) outRow) acc cs)) =
   set (objKeys acc) \<union> (set cs - {''__proto__''})"
proof (induction cs arbitrary: acc)
  case Nil
  then show ?case by simp
next
  case (Cons d cs)
  have "''__proto__'' \<notin> set (objKeys (objSet d (f d) acc))"
    using Cons.prems by (auto simp: set_objKeys_objSet)
  from Cons.IH [OF this] Cons.prems show ?case
    by (auto simp: set_objKeys_objSet)
qed

text \<open>
  Claim C3, as amended. When no requested name is an array index and none is
  \<^verbatim>\<open>__proto__\<close>, the keys of the row \<^verbatim>\<open>rowFormatColumns\<close> returns are the requested names
  in the order of their first occurrence (the requested list itself when it has no
  repetition), and each requested name carries the row's value for it when that value is a
  boolean, a number, a string or an array of strings, and \<^verbatim>\<open>null\<close> otherwise; a missing
  column is present with \<^verbatim>\<open>null\<close>.
\<close>

theorem rowFormatColumns_spec:
  assumes "\<forall>c \<in> set columnNames. \<not> isArrayIndex c \<and> c \<noteq> ''__proto__''"
  shows "objKeys (rowFormatColumns row columnNames) = firstSeen {} columnNames
       \<and> (distinct columnNames \<longrightarrow> objKeys (rowFormatColumns row columnNames) = columnNames)
       \<and> (\<forall>c \<in> set columnNames.
            objGet (rowFormatColumns row columnNames) c =
              (if isWhitelisted (objGet row c) then objGet row c else JNull))"
proof -
  have k: "objKeys (rowFormatColumns row columnNames) = firstSeen {} columnNames"
    using objKeys_foldl_objSet [OF assms, of "\<lambda>c. rowFormatColumn (objGet row c)" "[]"]
    by (simp add: rowFormatColumns_def objKeys_def)
  have v: "objGet (rowFormatColumns row columnNames) c =
              (if isWhitelisted (objGet row c) then objGet row c else JNull)"
    if "c \<in> set columnNames" for c
  proof -
    from that assms have "c \<noteq> ''__proto__''" by blast
    from objGet_foldl_objSet [OF this, of "\<lambda>c. rowFormatColumn (objGet row c)" "[]" columnNames] that
    show ?thesis by (simp add: rowFormatColumns_def rowFormatColumn_whitelist)
  qed
  from k v show ?thesis by (simp add: firstSeen_id)
qed

theorem rowFormatColumns_spec_witness:
  "objKeys (rowFormatColumns
      [(''Name'', JStr ''x''), (''Tags'', JArr [JStr ''a'', JNum 1]), (''Obj'', JObj []),
       (''Who'', JArr [JStr ''a'', JStr ''b''])]
      [''Obj'', ''Name'', ''Ghost'', ''Tags'', ''Who'']) = [''Obj'', ''Name'', ''Ghost'', ''Tags'', ''Who'']
   \<and> map (objGet (rowFormatColumns
      [(''Name'', JStr ''x''), (''Tags'', JArr [JStr ''a'', JNum 1]), (''Obj'', JObj []),
       (''Who'', JArr [JStr ''a'', JStr ''b''])]
      [''Obj'', ''Name'', ''Ghost'', ''Tags'', ''Who'']))
      [''Obj'', ''Name'', ''Ghost'', ''Tags'', ''Who''] =
     [JNull, JStr ''x'', JNull, JNull, JArr [JStr ''a'', JStr ''b'']]"
proof -
  let ?row = "[(''Name'', JStr ''x''), (''Tags'', JArr [JStr ''a'', JNum 1]), (''Obj'', JObj []),
       (''Who'', JArr [JStr ''a'', JStr ''b''])] :: IRow"
  let ?cs = "[''Obj'', ''Name'', ''Ghost'', ''Tags'', ''Who'']"
  have h: "\<forall>c \<in> set ?cs. \<not> isArrayIndex c \<and> c \<noteq> ''__proto__''"
    by (simp add: isArrayIndex_def isDigit_def)
  have d: "distinct ?cs" by simp
  note t = rowFormatColumns_spec [OF h, of ?row]
  note k = t [THEN conjunct2, THEN conjunct1, THEN mp, OF d]
  note v = t [THEN conjunct2, THEN conjunct2, THEN bspec]
  have g: "objGet ?row ''Obj'' = JObj []" "objGet ?row ''Name'' = JStr ''x''"
    "objGet ?row ''Ghost'' = JUndefined" "objGet ?row ''Tags'' = JArr [JStr ''a'', JNum 1]"
    "objGet ?row ''Who'' = JArr [JStr ''a'', JStr ''b'']"
    by (simp_all add: objGet_def objectPrototypeNames_def)
  have "objGet (rowFormatColumns ?row ?cs) ''Obj'' = JNull"
    using v [of "''Obj''"] by (simp add: g)
  moreover have "objGet (rowFormatColumns ?row ?cs) ''Name'' = JStr ''x''"
    using v [of "''Name''"] by (simp add: g)
  moreover have "objGet (rowFormatColumns ?row ?cs) ''Ghost'' = JNull"
    using v [of "''Ghost''"] by (simp add: g)
  moreover have "objGet (rowFormatColumns ?row ?cs) ''Tags'' = JNull"
    using v [of "''Tags''"] by (simp add: g)
  moreover have "objGet (rowFormatColumns ?row ?cs) ''Who'' = JArr [JStr ''a'', JStr ''b'']"
    using v [of "''Who''"] by (simp add: g)
  ultimately show ?thesis using k by simp
qed

text \<open>
  The requested order is not kept when a requested name is an array index: the object
  lists such keys first.
\<close>

lemma isArrayIndex_1: "isArrayIndex ''1''"
  by (simp add: isArrayIndex_def isDigit_def digitsValue_def)

lemma not_isArrayIndex_b: "\<not> isArrayIndex ''b''"
  by (simp add: isArrayIndex_def isDigit_def digitsValue_def)

theorem rowFormatColumns_order_counterexample:
  "objKeys (rowFormatColumns [] [''b'', ''1'']) = [''1'', ''b'']"
  by (simp add: rowFormatColumns_def objSet_def objKeys_def objCreate_def
      isArrayIndex_1 not_isArrayIndex_b)

section \<open>Properties of \<^verbatim>\<open>apiRequestAllItems\<close>\<close>

lemma objUpdate_objUpdate: "objUpdate k v (objUpdate k w ob) = objUpdate k v ob"
  by (induction ob) auto

lemma objUpdate_append_new:
  "k \<notin> fst ` set ob \<Longrightarrow> objUpdate k v (ob @ [(k, w)]) = ob @ [(k, v)]"
  by (induction ob) auto

lemma objSet_objSet_plain:
  assumes "\<not> isArrayIndex k" "k \<noteq> ''__proto__''"
  shows "objSet k v (objSet k w ob) = objSet k v ob"
proof (cases "k \<in> set (objKeys ob)")
  case True
  then show ?thesis
    by (simp add: objSet_def objKeys_objUpdate objUpdate_objUpdate)
next
  case False
  with assms have "objSet k w ob = ob @ [(k, w)]" "objSet k v ob = ob @ [(k, v)]"
    by (simp_all add: objSet_def objCreate_def)
  moreover have "objSet k v (ob @ [(k, w)]) = objUpdate k v (ob @ [(k, w)])"
    by (simp add: objSet_def objKeys_def)
  ultimately show ?thesis using False
    by (simp add: objUpdate_append_new objKeys_def)
qed

lemma not_index_start: "\<not> isArrayIndex ''start''"
  by (simp add: isArrayIndex_def isDigit_def)

lemma not_index_limit: "\<not> isArrayIndex ''limit''"
  by (simp add: isArrayIndex_def isDigit_def)

lemma start_get: "objGet (objSet ''start'' v base) ''start'' = v"
  by (simp add: objGet_objSet_same)

lemma start_set: "objSet ''start'' v (objSet ''start'' w base) = objSet ''start'' v base"
  by (simp add: objSet_objSet_plain not_index_start)

lemma fitsCall_Reply: "fitsCall n (Reply (Some xs)) = (length xs \<le> n)"
  by (simp add: fitsCall_def)

lemma loop_pages:
  assumes "list_all isFullPage pre" "isShortPage lst" "list_all (fitsCall n) pre" "fitsCall n lst"
  shows "apiRequestAllItemsLoop n m e b (pre @ lst # rest)
           (objSet ''start'' (JNum (int (1000 * j))) base) acc calls =
         (Returned (acc @ concat (map replyRows (pre @ [lst]))),
          objSet ''start'' (JNum (int (1000 * (j + Suc (length pre))))) base,
          calls @ map (\<lambda>i. \<lparr>callMethod = m, callEndpoint = e, callBody = b,
                             callQs = objSet ''start'' (JNum (int (1000 * (j + i)))) base\<rparr>)
                    [0..<Suc (length pre)])"
  using assms
proof (induction pre arbitrary: j acc calls)
  case Nil
  have s: "int (1000 * j) + 1000 = int (1000 * Suc j)" by simp
  from Nil show ?case
    by (cases lst rule: isShortPage.cases)
       (simp_all add: rowFetchSegmentLimit_def start_get start_set add.commute fitsCall_def
          Let_def)
next
  case (Cons r pre)
  then obtain xs where r: "r = Reply (Some xs)" "1000 \<le> length xs" "length xs \<le> n"
    by (cases r rule: isFullPage.cases) (auto simp: fitsCall_def)
  have s: "int (1000 * j) + 1000 = int (1000 * Suc j)" by simp
  from Cons.prems have p: "list_all isFullPage pre" "list_all (fitsCall n) pre" by simp_all
  note IH = Cons.IH [OF p(1) Cons.prems(2) p(2) Cons.prems(4), of "Suc j"]
  have step: "apiRequestAllItemsLoop n m e b ((r # pre) @ lst # rest)
           (objSet ''start'' (JNum (int (1000 * j))) base) acc calls =
        apiRequestAllItemsLoop n m e b (pre @ lst # rest)
           (objSet ''start'' (JNum (int (1000 * Suc j))) base) (acc @ xs)
           (calls @ [\<lparr>callMethod = m, callEndpoint = e, callBody = b,
                             callQs = objSet ''start'' (JNum (int (1000 * j))) base\<rparr>])"
    using r by (simp add: rowFetchSegmentLimit_def start_get start_set add.commute Let_def)
  show ?case
    unfolding step IH using r
    by (simp add: map_upt_Suc [of _ "Suc (length pre)"] ac_simps del: upt_Suc)
qed


lemma objUpdate_same_value: "map_of ob k = Some v \<Longrightarrow> objUpdate k v ob = ob"
  by (induction ob) (auto split: if_splits)

lemma objSet_same_value: "map_of ob k = Some v \<Longrightarrow> objSet k v ob = ob"
  by (auto simp: objSet_def objKeys_def objUpdate_same_value dest: map_of_SomeD
      intro: rev_image_eqI)

lemma loop_all_full:
  assumes "list_all isFullPage rs" "list_all (fitsCall n) rs"
  shows "apiRequestAllItemsLoop n m e b rs
           (objSet ''start'' (JNum (int (1000 * j))) base) acc calls =
         (Pending,
          objSet ''start'' (JNum (int (1000 * (j + length rs)))) base,
          calls @ map (\<lambda>i. \<lparr>callMethod = m, callEndpoint = e, callBody = b,
                             callQs = objSet ''start'' (JNum (int (1000 * (j + i)))) base\<rparr>)
                    [0..<length rs])"
  using assms
proof (induction rs arbitrary: j acc calls)
  case Nil
  show ?case by simp
next
  case (Cons r rs)
  then obtain xs where r: "r = Reply (Some xs)" "1000 \<le> length xs" "length xs \<le> n"
    by (cases r rule: isFullPage.cases) (auto simp: fitsCall_def)
  from Cons.prems have p: "list_all isFullPage rs" "list_all (fitsCall n) rs" by simp_all
  note IH = Cons.IH [OF p, of "Suc j"]
  have step: "apiRequestAllItemsLoop n m e b (r # rs)
           (objSet ''start'' (JNum (int (1000 * j))) base) acc calls =
        apiRequestAllItemsLoop n m e b rs
           (objSet ''start'' (JNum (int (1000 * Suc j))) base) (acc @ xs)
           (calls @ [\<lparr>callMethod = m, callEndpoint = e, callBody = b,
                             callQs = objSet ''start'' (JNum (int (1000 * j))) base\<rparr>])"
    using r by (simp add: rowFetchSegmentLimit_def start_get start_set add.commute Let_def)
  show ?case
    unfolding step IH
    by (simp add: map_upt_Suc [of _ "length rs"] ac_simps del: upt_Suc)
qed

lemma initial_query:
  "objSet ''limit'' (JNum 1000) (objSet ''start'' (JNum 0) q) =
   objSet ''start'' (JNum (int (1000 * 0))) (objSet ''limit'' (JNum 1000) (objSet ''start'' (JNum 0) q))"
proof -
  have "map_of (objSet ''limit'' (JNum 1000) (objSet ''start'' (JNum 0) q)) ''start'' = Some (JNum 0)"
    by (simp add: map_of_objSet)
  from objSet_same_value [OF this] show ?thesis by simp
qed

lemma apiRequestAllItems_unfold:
  "apiRequestAllItems n m e b query replies =
     apiRequestAllItemsLoop n m e b replies
       (objSet ''start'' (JNum (int (1000 * 0)))
          (objSet ''limit'' (JNum 1000) (objSet ''start'' (JNum 0) (query0 query)))) [] []"
  unfolding apiRequestAllItems_def Let_def rowFetchSegmentLimit_def
  using initial_query [of "query0 query"] by simp

lemma pageQuery_start: "objGet (pageQuery query i) ''start'' = JNum (int (1000 * i))"
  by (simp add: pageQuery_def start_get)

lemma pageQuery_limit: "objGet (pageQuery query i) ''limit'' = JNum 1000"
  by (simp add: pageQuery_def objGet_objSet_other objGet_objSet_same)

lemma pageQuery_other:
  "k \<noteq> ''start'' \<Longrightarrow> k \<noteq> ''limit'' \<Longrightarrow> objGet (pageQuery query i) k = objGet (query0 query) k"
  by (simp add: pageQuery_def objGet_objSet_other query0_def)

text \<open>
  Claim C1, as the code has it. Let every reply carry no more rows than the engine passes in
  one call. While the replies carry at least 1000 rows, \<^verbatim>\<open>apiRequestAllItems\<close> goes on, and at
  the first reply with at most 999 rows (or no rows array) it returns the rows of all replies
  so far, concatenated in request order, having issued one request per reply, the request of
  page \<open>i\<close> with \<^verbatim>\<open>start = 1000 * i\<close> and \<^verbatim>\<open>limit = 1000\<close>. While every reply is a full page the
  function has not returned and has issued one request per reply.
\<close>

theorem apiRequestAllItems_pages:
  "(list_all isFullPage pre \<and> isShortPage lst \<and> list_all (fitsCall n) (pre @ [lst]) \<longrightarrow>
      apiRequestAllItems n m e b query (pre @ lst # rest) =
        (Returned (concat (map replyRows (pre @ [lst]))),
         pageQuery query (Suc (length pre)),
         map (pageCall m e b query) [0..<Suc (length pre)]))
   \<and> (list_all isFullPage pre \<and> list_all (fitsCall n) pre \<longrightarrow>
      apiRequestAllItems n m e b query pre =
        (Pending, pageQuery query (length pre), map (pageCall m e b query) [0..<length pre]))
   \<and> objGet (pageQuery query i) ''start'' = JNum (1000 * int i)
   \<and> objGet (pageQuery query i) ''limit'' = JNum 1000"
proof (intro conjI impI)
  assume a: "list_all isFullPage pre \<and> isShortPage lst \<and> list_all (fitsCall n) (pre @ [lst])"
  then have f: "list_all (fitsCall n) pre" "fitsCall n lst" by simp_all
  show "apiRequestAllItems n m e b query (pre @ lst # rest) =
        (Returned (concat (map replyRows (pre @ [lst]))),
         pageQuery query (Suc (length pre)),
         map (pageCall m e b query) [0..<Suc (length pre)])"
    unfolding apiRequestAllItems_unfold
    using loop_pages [OF conjunct1 [OF a] conjunct1 [OF conjunct2 [OF a]] f,
        of m e b rest 0 _ "[]" "[]"]
    by (simp add: pageCall_def pageQuery_def query0_def del: upt_Suc)
next
  assume a: "list_all isFullPage pre \<and> list_all (fitsCall n) pre"
  show "apiRequestAllItems n m e b query pre =
        (Pending, pageQuery query (length pre), map (pageCall m e b query) [0..<length pre])"
    unfolding apiRequestAllItems_unfold
    using loop_all_full [OF conjunct1 [OF a] conjunct2 [OF a], of m e b 0 _ "[]" "[]"]
    by (simp add: pageCall_def pageQuery_def query0_def del: upt_Suc)
next
  show "objGet (pageQuery query i) ''start'' = JNum (1000 * int i)"
    by (simp add: pageQuery_start)
  show "objGet (pageQuery query i) ''limit'' = JNum 1000"
    by (rule pageQuery_limit)
qed

theorem apiRequestAllItems_pages_witness:
  "apiRequestAllItems 100000 ''GET'' ''/rows/'' [] (Some [(''table_name'', JStr ''T'')])
      [Reply (Some (replicate 1000 [])), Reply (Some (replicate 1000 [])),
       Reply (Some (replicate 500 []))] =
     (Returned (replicate 1000 [] @ replicate 1000 [] @ replicate 500 []),
      pageQuery (Some [(''table_name'', JStr ''T'')]) 3,
      [pageCall ''GET'' ''/rows/'' [] (Some [(''table_name'', JStr ''T'')]) 0,
       pageCall ''GET'' ''/rows/'' [] (Some [(''table_name'', JStr ''T'')]) 1,
       pageCall ''GET'' ''/rows/'' [] (Some [(''table_name'', JStr ''T'')]) 2])
   \<and> length (replicate 1000 ([]::IRow) @ replicate 1000 [] @ replicate 500 []) = 2500
   \<and> apiRequestAllItems 100000 ''GET'' ''/rows/'' [] None [Reply (Some (replicate 999 []))] =
     (Returned (replicate 999 []), pageQuery None 1, [pageCall ''GET'' ''/rows/'' [] None 0])
   \<and> apiRequestAllItems 100000 ''GET'' ''/rows/'' [] None [Reply (Some (replicate 1000 []))] =
     (Pending, pageQuery None 1, [pageCall ''GET'' ''/rows/'' [] None 0])
   \<and> objGet (pageQuery None 2) ''start'' = JNum 2000
   \<and> objGet (pageQuery None 2) ''limit'' = JNum 1000"
proof -
  let ?q = "Some [(''table_name'', JStr ''T'')]"
  let ?full = "Reply (Some (replicate 1000 []))"
  have h1: "list_all isFullPage [?full, ?full] \<and> isShortPage (Reply (Some (replicate 500 [])))
      \<and> list_all (fitsCall 100000) ([?full, ?full] @ [Reply (Some (replicate 500 []))])"
    by (simp add: fitsCall_def)
  have h2: "list_all isFullPage [] \<and> isShortPage (Reply (Some (replicate 999 [])))
      \<and> list_all (fitsCall 100000) ([] @ [Reply (Some (replicate 999 []))])"
    by (simp add: fitsCall_def)
  have h3: "list_all isFullPage [?full] \<and> list_all (fitsCall 100000) [?full]"
    by (simp add: fitsCall_def)
  have "apiRequestAllItems 100000 ''GET'' ''/rows/'' [] ?q
      ([?full, ?full] @ Reply (Some (replicate 500 [])) # []) =
     (Returned (concat (map replyRows ([?full, ?full] @ [Reply (Some (replicate 500 []))]))),
      pageQuery ?q (Suc (length [?full, ?full])),
      map (pageCall ''GET'' ''/rows/'' [] ?q) [0..<Suc (length [?full, ?full])])"
    by (rule apiRequestAllItems_pages [THEN conjunct1, THEN mp, OF h1])
  then have a: "apiRequestAllItems 100000 ''GET'' ''/rows/'' [] ?q
      [?full, ?full, Reply (Some (replicate 500 []))] =
     (Returned (replicate 1000 [] @ replicate 1000 [] @ replicate 500 []),
      pageQuery ?q 3,
      [pageCall ''GET'' ''/rows/'' [] ?q 0, pageCall ''GET'' ''/rows/'' [] ?q 1,
       pageCall ''GET'' ''/rows/'' [] ?q 2])"
    by (simp add: numeral_3_eq_3 numeral_2_eq_2)
  have "apiRequestAllItems 100000 ''GET'' ''/rows/'' [] None
      ([] @ Reply (Some (replicate 999 [])) # []) =
     (Returned (concat (map replyRows ([] @ [Reply (Some (replicate 999 []))]))),
      pageQuery None (Suc (length ([]::reply list))),
      map (pageCall ''GET'' ''/rows/'' [] None) [0..<Suc (length ([]::reply list))])"
    by (rule apiRequestAllItems_pages [THEN conjunct1, THEN mp, OF h2])
  then have b: "apiRequestAllItems 100000 ''GET'' ''/rows/'' [] None
      [Reply (Some (replicate 999 []))] =
     (Returned (replicate 999 []), pageQuery None 1, [pageCall ''GET'' ''/rows/'' [] None 0])"
    by simp
  have "apiRequestAllItems 100000 ''GET'' ''/rows/'' [] None [?full] =
     (Pending, pageQuery None (length [?full]),
      map (pageCall ''GET'' ''/rows/'' [] None) [0..<length [?full]])"
    by (rule apiRequestAllItems_pages [THEN conjunct2, THEN conjunct1, THEN mp, OF h3])
  then have c: "apiRequestAllItems 100000 ''GET'' ''/rows/'' [] None [?full] =
     (Pending, pageQuery None 1, [pageCall ''GET'' ''/rows/'' [] None 0])"
    by simp
  have d: "objGet (pageQuery None 2) ''start'' = JNum 2000"
    using apiRequestAllItems_pages [THEN conjunct2, THEN conjunct2, THEN conjunct1, of None 2]
    by simp
  have e: "objGet (pageQuery None 2) ''limit'' = JNum 1000"
    by (rule apiRequestAllItems_pages [THEN conjunct2, THEN conjunct2, THEN conjunct2])
  have f: "length (replicate 1000 ([]::IRow) @ replicate 1000 [] @ replicate 500 []) = 2500"
    by simp
  from a b c d e f show ?thesis by (intro conjI)
qed

text \<open>
  A page larger than the engine passes in one call ends the function with a \<^verbatim>\<open>RangeError\<close>
  after its request: with at most 125000 arguments to a call, a first reply of 200000 rows
  (a full page) gives no rows and no second request.
\<close>

theorem apiRequestAllItems_large_page_counterexample:
  "apiRequestAllItems 125000 ''GET'' ''/rows/'' [] None
      [Reply (Some (replicate 200000 [])), Reply (Some [])] =
     (Threw RangeError, pageQuery None 0, [pageCall ''GET'' ''/rows/'' [] None 0])
   \<and> isFullPage (Reply (Some (replicate 200000 [])))"
proof -
  have "apiRequestAllItems 125000 ''GET'' ''/rows/'' [] None
      [Reply (Some (replicate 200000 [])), Reply (Some [])] =
     (Threw RangeError, pageQuery None 0, [pageCall ''GET'' ''/rows/'' [] None 0])"
    unfolding apiRequestAllItems_unfold
    by (simp add: pageQuery_def pageCall_def query0_def Let_def)
  then show ?thesis by simp
qed

lemma loop_calls_prefix:
  "\<exists>new. snd (snd (apiRequestAllItemsLoop n m e b rs q acc calls)) = calls @ new"
proof (induction rs arbitrary: q acc calls)
  case Nil
  show ?case by simp
next
  case (Cons r rs)
  show ?case
  proof (cases r)
    case Failure
    then show ?thesis by simp
  next
    case NoBody
    then show ?thesis by simp
  next
    case RowsScalar
    then show ?thesis by simp
  next
    case (Reply rows)
    let ?C = "\<lparr>callMethod = m, callEndpoint = e, callBody = b, callQs = q\<rparr>"
    from Cons.IH [of
        "objSet ''start'' (JNum (numberOf (objGet q ''start'') + int rowFetchSegmentLimit)) q"
        "acc @ (case rows of None \<Rightarrow> [] | Some xs \<Rightarrow> xs)" "calls @ [?C]"]
    obtain new where "snd (snd (apiRequestAllItemsLoop n m e b rs
        (objSet ''start'' (JNum (numberOf (objGet q ''start'') + int rowFetchSegmentLimit)) q)
        (acc @ (case rows of None \<Rightarrow> [] | Some xs \<Rightarrow> xs)) (calls @ [?C]))) =
        calls @ ?C # new"
      by auto
    with Reply show ?thesis by (simp add: Let_def)
  qed
qed

lemma loop_first_call:
  assumes "rs \<noteq> []"
  shows "\<exists>new. snd (snd (apiRequestAllItemsLoop n m e b rs q acc calls)) =
           calls @ \<lparr>callMethod = m, callEndpoint = e, callBody = b, callQs = q\<rparr> # new"
proof (cases rs)
  case Nil
  with assms show ?thesis by simp
next
  case (Cons r rest)
  show ?thesis
  proof (cases r)
    case Failure
    with Cons show ?thesis by simp
  next
    case NoBody
    with Cons show ?thesis by simp
  next
    case RowsScalar
    with Cons show ?thesis by simp
  next
    case (Reply rows)
    show ?thesis
    proof (cases "case rows of None \<Rightarrow> False | Some xs \<Rightarrow> length xs > rowFetchSegmentLimit - 1")
      case True
      from loop_calls_prefix [of n m e b rest
          "objSet ''start'' (JNum (numberOf (objGet q ''start'') + int rowFetchSegmentLimit)) q"
          "acc @ (case rows of None \<Rightarrow> [] | Some xs \<Rightarrow> xs)"
          "calls @ [\<lparr>callMethod = m, callEndpoint = e, callBody = b, callQs = q\<rparr>]"]
      show ?thesis using True Cons Reply by (auto simp: Let_def)
    next
      case False
      with Cons Reply show ?thesis by (simp add: Let_def)
    qed
  qed
qed

lemma loop_calls_shape:
  "(\<exists>w. fst (snd (apiRequestAllItemsLoop n m e b rs (objSet ''start'' v base) acc calls)) =
          objSet ''start'' w base)
   \<and> (\<forall>c \<in> set (snd (snd (apiRequestAllItemsLoop n m e b rs (objSet ''start'' v base) acc calls))).
         c \<in> set calls \<or> (\<exists>w. callQs c = objSet ''start'' w base))"
proof (induction rs arbitrary: v acc calls)
  case Nil
  show ?case by auto
next
  case (Cons r rs)
  show ?case
  proof (cases r)
    case Failure
    then show ?thesis by auto
  next
    case NoBody
    then show ?thesis by auto
  next
    case RowsScalar
    then show ?thesis by auto
  next
    case (Reply rows)
    show ?thesis
    proof (cases "n < length (case rows of None \<Rightarrow> [] | Some xs \<Rightarrow> xs)
        \<or> \<not> (case rows of None \<Rightarrow> False | Some xs \<Rightarrow> length xs > rowFetchSegmentLimit - 1)")
      case stop: True
      with Reply show ?thesis by (auto simp: Let_def start_get start_set)
    next
      case False
      then have True: "case rows of None \<Rightarrow> False | Some xs \<Rightarrow> length xs > rowFetchSegmentLimit - 1"
        and fits: "\<not> n < length (case rows of None \<Rightarrow> [] | Some xs \<Rightarrow> xs)"
        by simp_all
      have step: "apiRequestAllItemsLoop n m e b (r # rs) (objSet ''start'' v base) acc calls =
        apiRequestAllItemsLoop n m e b rs
          (objSet ''start'' (JNum (numberOf v + int rowFetchSegmentLimit)) base)
          (acc @ (case rows of None \<Rightarrow> [] | Some xs \<Rightarrow> xs))
          (calls @ [\<lparr>callMethod = m, callEndpoint = e, callBody = b,
                     callQs = objSet ''start'' v base\<rparr>])"
        using True fits Reply by (simp add: Let_def start_get start_set)
      let ?C = "\<lparr>callMethod = m, callEndpoint = e, callBody = b,
                     callQs = objSet ''start'' v base\<rparr>"
      let ?X = "apiRequestAllItemsLoop n m e b rs
          (objSet ''start'' (JNum (numberOf v + int rowFetchSegmentLimit)) base)
          (acc @ (case rows of None \<Rightarrow> [] | Some xs \<Rightarrow> xs)) (calls @ [?C])"
      note IH = Cons.IH [of "JNum (numberOf v + int rowFetchSegmentLimit)"
          "acc @ (case rows of None \<Rightarrow> [] | Some xs \<Rightarrow> xs)" "calls @ [?C]"]
      show ?thesis
        unfolding step
      proof (intro conjI ballI)
        show "\<exists>w. fst (snd ?X) = objSet ''start'' w base"
          by (rule IH [THEN conjunct1])
      next
        fix c
        assume "c \<in> set (snd (snd ?X))"
        from IH [THEN conjunct2, THEN bspec, OF this]
        have "c \<in> set calls \<or> c = ?C \<or> (\<exists>w. callQs c = objSet ''start'' w base)"
          by auto
        moreover have "\<exists>w. callQs c = objSet ''start'' w base" if "c = ?C"
          using that by (intro exI [of _ v]) simp
        ultimately show "c \<in> set calls \<or> (\<exists>w. callQs c = objSet ''start'' w base)"
          by blast
      qed
    qed
  qed
qed

lemma start_base_limit:
  "objGet (objSet ''start'' w (objSet ''limit'' (JNum 1000) (objSet ''start'' (JNum 0) q))) ''limit''
     = JNum 1000"
  by (simp add: objGet_objSet_other objGet_objSet_same)

lemma start_base_other:
  "k \<noteq> ''start'' \<Longrightarrow> k \<noteq> ''limit'' \<Longrightarrow>
   objGet (objSet ''start'' w (objSet ''limit'' (JNum 1000) (objSet ''start'' (JNum 0) q))) k
     = objGet q k"
  by (simp add: objGet_objSet_other)

text \<open>
  Claim C10. Whatever the caller's query object and the replies: every page request carries
  \<^verbatim>\<open>limit = 1000\<close> and, for every key other than \<^verbatim>\<open>start\<close> and \<^verbatim>\<open>limit\<close>, the caller's
  entry; the first request carries \<^verbatim>\<open>start = 0\<close>; and the caller's object as the function
  leaves it has \<^verbatim>\<open>limit = 1000\<close> and its other entries unchanged.
\<close>

theorem apiRequestAllItems_query_frame:
  "(\<forall>c \<in> set (snd (snd (apiRequestAllItems n m e b query replies))).
       objGet (callQs c) ''limit'' = JNum 1000
     \<and> (\<forall>k. k \<noteq> ''start'' \<and> k \<noteq> ''limit'' \<longrightarrow>
            objGet (callQs c) k = objGet (query0 query) k))
   \<and> (replies \<noteq> [] \<longrightarrow>
        snd (snd (apiRequestAllItems n m e b query replies)) \<noteq> []
      \<and> objGet (callQs (hd (snd (snd (apiRequestAllItems n m e b query replies))))) ''start'' = JNum 0
      \<and> objGet (callQs (hd (snd (snd (apiRequestAllItems n m e b query replies))))) ''limit''
           = JNum 1000)
   \<and> objGet (fst (snd (apiRequestAllItems n m e b query replies))) ''limit'' = JNum 1000
   \<and> (\<forall>k. k \<noteq> ''start'' \<and> k \<noteq> ''limit'' \<longrightarrow>
          objGet (fst (snd (apiRequestAllItems n m e b query replies))) k = objGet (query0 query) k)"
proof -
  let ?base = "objSet ''limit'' (JNum 1000) (objSet ''start'' (JNum 0) (query0 query))"
  let ?res = "apiRequestAllItems n m e b query replies"
  note shape = loop_calls_shape [of n m e b replies "JNum (int (1000 * 0))" ?base "[]" "[]",
      folded apiRequestAllItems_unfold]
  from shape obtain w where q: "fst (snd ?res) = objSet ''start'' w ?base" by blast
  have calls: "\<exists>w. callQs c = objSet ''start'' w ?base" if "c \<in> set (snd (snd ?res))" for c
    using shape that by auto
  have 1: "\<forall>c \<in> set (snd (snd ?res)).
       objGet (callQs c) ''limit'' = JNum 1000
     \<and> (\<forall>k. k \<noteq> ''start'' \<and> k \<noteq> ''limit'' \<longrightarrow>
            objGet (callQs c) k = objGet (query0 query) k)"
  proof
    fix c assume "c \<in> set (snd (snd ?res))"
    from calls [OF this] obtain w' where "callQs c = objSet ''start'' w' ?base" ..
    then show "objGet (callQs c) ''limit'' = JNum 1000
     \<and> (\<forall>k. k \<noteq> ''start'' \<and> k \<noteq> ''limit'' \<longrightarrow>
            objGet (callQs c) k = objGet (query0 query) k)"
      by (simp add: start_base_limit start_base_other)
  qed
  have 2: "snd (snd ?res) \<noteq> []
      \<and> objGet (callQs (hd (snd (snd ?res)))) ''start'' = JNum 0
      \<and> objGet (callQs (hd (snd (snd ?res)))) ''limit'' = JNum 1000" if "replies \<noteq> []"
  proof -
    from loop_first_call [OF that, of n m e b "objSet ''start'' (JNum (int (1000 * 0))) ?base" "[]" "[]",
        folded apiRequestAllItems_unfold]
    obtain new where "snd (snd ?res) =
        \<lparr>callMethod = m, callEndpoint = e, callBody = b,
          callQs = objSet ''start'' (JNum (int (1000 * 0))) ?base\<rparr> # new"
      by auto
    then show ?thesis by (simp add: start_get start_base_limit)
  qed
  from 1 2 q show ?thesis
    by (simp add: start_base_limit start_base_other)
qed

theorem apiRequestAllItems_query_frame_witness:
  "snd (snd (apiRequestAllItems 100000 ''GET'' ''/rows/'' []
       (Some [(''start'', JNum 77), (''table_name'', JStr ''T''), (''limit'', JNum 5)])
       [Reply (Some [])])) \<noteq> []
   \<and> objGet (callQs (hd (snd (snd (apiRequestAllItems 100000 ''GET'' ''/rows/'' []
       (Some [(''start'', JNum 77), (''table_name'', JStr ''T''), (''limit'', JNum 5)])
       [Reply (Some [])]))))) ''start'' = JNum 0
   \<and> objGet (callQs (hd (snd (snd (apiRequestAllItems 100000 ''GET'' ''/rows/'' []
       (Some [(''start'', JNum 77), (''table_name'', JStr ''T''), (''limit'', JNum 5)])
       [Reply (Some [])]))))) ''limit'' = JNum 1000
   \<and> objGet (callQs (hd (snd (snd (apiRequestAllItems 100000 ''GET'' ''/rows/'' []
       (Some [(''start'', JNum 77), (''table_name'', JStr ''T''), (''limit'', JNum 5)])
       [Reply (Some [])]))))) ''table_name'' = JStr ''T''"
proof -
  let ?q = "Some [(''start'', JNum 77), (''table_name'', JStr ''T''), (''limit'', JNum 5)]"
  let ?rs = "[Reply (Some [])]"
  let ?calls = "snd (snd (apiRequestAllItems 100000 ''GET'' ''/rows/'' [] ?q ?rs))"
  note t = apiRequestAllItems_query_frame [of 100000 "''GET''" "''/rows/''" "[]" ?q ?rs]
  have n: "?rs \<noteq> []" by simp
  note first = t [THEN conjunct2, THEN conjunct1, THEN mp, OF n]
  have hd_in: "hd ?calls \<in> set ?calls"
    using first [THEN conjunct1] by (rule hd_in_set)
  have k: "''table_name'' \<noteq> ''start'' \<and> ''table_name'' \<noteq> ''limit''" by simp
  from t [THEN conjunct1, THEN bspec, OF hd_in, THEN conjunct2, THEN spec, THEN mp, OF k]
  have "objGet (callQs (hd ?calls)) ''table_name'' = JStr ''T''"
    by (simp add: query0_def objGet_def)
  with first show ?thesis by simp
qed

section \<open>Properties of \<^verbatim>\<open>rowMapColumnsFromKeysToNames\<close>\<close>

lemma map_of_objDelete: "map_of (objDelete k ob) k' = (if k' = k then None else map_of ob k')"
  by (induction ob) (auto simp: objDelete_def)

lemma objGet_objDelete_other: "k' \<noteq> k \<Longrightarrow> objGet (objDelete k ob) k' = objGet ob k'"
  by (simp add: objGet_def map_of_objDelete)

lemma set_objKeys_objDelete: "set (objKeys (objDelete k ob)) = set (objKeys ob) - {k}"
  by (auto simp: objDelete_def objKeys_def)

lemma internal_not_proto: "n \<in> set internalNames \<Longrightarrow> n \<noteq> ''__proto__''"
  by (auto simp: internalNames_def)

lemma moveInternal_row_get:
  "k \<notin> set ns \<Longrightarrow> objGet (fst (foldl moveInternal (row, out) ns)) k = objGet row k"
proof (induction ns arbitrary: row out)
  case Nil
  show ?case by simp
next
  case (Cons n ns)
  then have k: "k \<noteq> n" "k \<notin> set ns" by auto
  show ?case
    using Cons.IH [OF k(2)] k(1)
    by (simp add: moveInternal_def objGet_objDelete_other)
qed

lemma moveInternal_row_keys:
  "k \<notin> set ns \<Longrightarrow>
   k \<in> set (objKeys (fst (foldl moveInternal (row, out) ns))) \<longleftrightarrow> k \<in> set (objKeys row)"
proof (induction ns arbitrary: row out)
  case Nil
  show ?case by simp
next
  case (Cons n ns)
  then have k: "k \<noteq> n" "k \<notin> set ns" by auto
  show ?case
    using Cons.IH [OF k(2)] k(1)
    by (simp add: moveInternal_def set_objKeys_objDelete)
qed

lemma moveInternal_row_keys_subset:
  "set (objKeys (fst (foldl moveInternal (row, out) ns))) \<subseteq> set (objKeys row)"
proof (induction ns arbitrary: row out)
  case Nil
  show ?case by simp
next
  case (Cons n ns)
  show ?case
    using Cons.IH [of "objDelete n row"] Cons.IH [of row]
    by (auto simp: moveInternal_def set_objKeys_objDelete)
qed

lemma moveInternal_out_keys:
  assumes "distinct ns" "''__proto__'' \<notin> set ns"
  shows "set (objKeys (snd (foldl moveInternal (row, out) ns))) =
         set (objKeys out) \<union> {n \<in> set ns. truthy (objGet row n)}"
  using assms
proof (induction ns arbitrary: row out)
  case Nil
  show ?case by simp
next
  case (Cons n ns)
  then have d: "distinct ns" "''__proto__'' \<notin> set ns" "n \<notin> set ns" "n \<noteq> ''__proto__''"
    by auto
  have g: "{m \<in> set ns. truthy (objGet (objDelete n row) m)} = {m \<in> set ns. truthy (objGet row m)}"
  proof -
    have "objGet (objDelete n row) m = objGet row m" if "m \<in> set ns" for m
      using that d(3) by (intro objGet_objDelete_other) auto
    then show ?thesis by auto
  qed
  show ?case
  proof (cases "truthy (objGet row n)")
    case True
    with Cons.IH [OF d(1,2), of "objDelete n row" "objSet n (objGet row n) out"] d(4)
    show ?thesis by (auto simp: moveInternal_def set_objKeys_objSet g)
  next
    case False
    with Cons.IH [OF d(1,2), of row out]
    show ?thesis by (auto simp: moveInternal_def)
  qed
qed

lemma moveInternal_out_get:
  "k \<notin> set ns \<Longrightarrow> objGet (snd (foldl moveInternal (row, out) ns)) k = objGet out k"
proof (induction ns arbitrary: row out)
  case Nil
  show ?case by simp
next
  case (Cons n ns)
  then have k: "k \<noteq> n" "k \<notin> set ns" by auto
  show ?case
    using Cons.IH [OF k(2)] k(1)
    by (simp add: moveInternal_def objGet_objSet_other)
qed

lemma distinct_internalNames: "distinct internalNames"
  by (simp add: internalNames_def)

lemma proto_not_internal: "''__proto__'' \<notin> set internalNames"
  by (simp add: internalNames_def)

lemma find_key_Some:
  "find (\<lambda>c. key c = k) columns = Some c \<Longrightarrow> c \<in> set columns \<and> key c = k"
  by (auto simp: find_Some_iff)

lemma find_key_distinct:
  "distinct (map key columns) \<Longrightarrow> c \<in> set columns \<Longrightarrow>
   find (\<lambda>c'. key c' = key c) columns = Some c"
proof (induction columns)
  case Nil
  then show ?case by simp
next
  case (Cons d columns)
  then show ?case by (cases "d = c") auto
qed

lemma mapColumn_keys_mono:
  "set (objKeys acc) \<subseteq> set (objKeys (foldl (mapColumn columns row) acc ks))"
proof (induction ks arbitrary: acc)
  case Nil
  show ?case by simp
next
  case (Cons k ks)
  have "set (objKeys acc) \<subseteq> set (objKeys (mapColumn columns row acc k))"
    by (auto simp: mapColumn_def set_objKeys_objSet split: option.splits)
  with Cons.IH [of "mapColumn columns row acc k"] show ?case by auto
qed

lemma mapColumn_keys_subset:
  "set (objKeys (foldl (mapColumn columns row) acc ks)) \<subseteq>
     set (objKeys acc) \<union> {name c |c. c \<in> set columns \<and> key c \<in> set ks}"
proof (induction ks arbitrary: acc)
  case Nil
  show ?case by simp
next
  case (Cons k ks)
  have step: "set (objKeys (mapColumn columns row acc k)) \<subseteq>
      set (objKeys acc) \<union> {name c |c. c \<in> set columns \<and> key c = k}"
  proof (cases "find (\<lambda>c. key c = k) columns")
    case None
    then show ?thesis by (simp add: mapColumn_def)
  next
    case (Some c)
    from find_key_Some [OF Some] have "name c \<in> {name c |c. c \<in> set columns \<and> key c = k}"
      by blast
    with Some show ?thesis
      by (auto simp: mapColumn_def set_objKeys_objSet split: if_splits)
  qed
  have "set (objKeys (foldl (mapColumn columns row) (mapColumn columns row acc k) ks)) \<subseteq>
     set (objKeys (mapColumn columns row acc k)) \<union> {name c |c. c \<in> set columns \<and> key c \<in> set ks}"
    by (rule Cons.IH)
  with step show ?case by auto
qed

lemma mapColumn_get:
  assumes "n \<noteq> ''__proto__''"
    and "\<forall>k \<in> set ks. \<forall>c. find (\<lambda>c. key c = k) columns = Some c \<and> name c = n
            \<longrightarrow> objGet row k = v"
  shows "objGet (foldl (mapColumn columns row) acc ks) n =
         (if \<exists>k \<in> set ks. \<exists>c. find (\<lambda>c. key c = k) columns = Some c \<and> name c = n
          then v else objGet acc n)"
  using assms(2)
proof (induction ks arbitrary: acc)
  case Nil
  show ?case by simp
next
  case (Cons k ks)
  from Cons.prems have rest: "\<forall>k \<in> set ks. \<forall>c. find (\<lambda>c. key c = k) columns = Some c \<and> name c = n
            \<longrightarrow> objGet row k = v"
    by simp
  note IH = Cons.IH [OF rest, of "mapColumn columns row acc k"]
  show ?case
  proof (cases "find (\<lambda>c. key c = k) columns")
    case None
    then have "mapColumn columns row acc k = acc" by (simp add: mapColumn_def)
    with IH None show ?thesis by auto
  next
    case (Some c)
    then have m: "mapColumn columns row acc k = objSet (name c) (objGet row k) acc"
      by (simp add: mapColumn_def)
    show ?thesis
    proof (cases "name c = n")
      case True
      with Some Cons.prems have "objGet row k = v" by simp
      with True assms(1) have "objGet (mapColumn columns row acc k) n = v"
        by (simp add: m objGet_objSet_same)
      with IH Some True show ?thesis by auto
    next
      case False
      then have "objGet (mapColumn columns row acc k) n = objGet acc n"
        by (simp add: m objGet_objSet_other)
      with IH Some False show ?thesis by auto
    qed
  qed
qed

text \<open>
  Claim C9, as amended. Every key of the row \<^verbatim>\<open>rowMapColumnsFromKeysToNames\<close> returns is a
  reserved internal field whose value in the input row is truthy, or the name of a metadata
  column whose key occurs in the row. Every reserved field with a truthy value is in the
  output; a reserved field that no metadata column is named after is in the output exactly
  when its value in the input row is truthy; and an input key that is neither reserved nor
  the name of a metadata column is not in the output.
\<close>

theorem rowMapColumnsFromKeysToNames_keys:
  "set (objKeys (rowMapColumnsFromKeysToNames row columns)) \<subseteq>
     {n \<in> set internalNames. truthy (objGet row n)}
     \<union> {name c |c. c \<in> set columns \<and> key c \<in> set (objKeys row)}
   \<and> (\<forall>n \<in> set internalNames. truthy (objGet row n) \<longrightarrow>
         n \<in> set (objKeys (rowMapColumnsFromKeysToNames row columns)))
   \<and> (\<forall>n \<in> set internalNames. n \<notin> name ` set columns \<longrightarrow>
         (n \<in> set (objKeys (rowMapColumnsFromKeysToNames row columns))
            \<longleftrightarrow> truthy (objGet row n)))
   \<and> (\<forall>k \<in> set (objKeys row). k \<notin> set internalNames \<and> k \<notin> name ` set columns \<longrightarrow>
         k \<notin> set (objKeys (rowMapColumnsFromKeysToNames row columns)))"
proof -
  let ?st = "foldl moveInternal (row, []) internalNames"
  let ?out = "rowMapColumnsFromKeysToNames row columns"
  let ?I = "{n \<in> set internalNames. truthy (objGet row n)}"
  let ?C = "{name c |c. c \<in> set columns \<and> key c \<in> set (objKeys row)}"
  have out1: "set (objKeys (snd ?st)) = ?I"
    using moveInternal_out_keys [OF distinct_internalNames proto_not_internal, of row "[]"]
    by (simp add: objKeys_def)
  have sub: "set (objKeys (fst ?st)) \<subseteq> set (objKeys row)"
    by (rule moveInternal_row_keys_subset)
  have out: "?out = (if isArrayLike (fst ?st) then snd ?st
                     else foldl (mapColumn columns (fst ?st)) (snd ?st) (objKeys (fst ?st)))"
    by (simp add: rowMapColumnsFromKeysToNames_def split: prod.splits)
  have upper: "set (objKeys ?out) \<subseteq> ?I \<union> ?C"
  proof (cases "isArrayLike (fst ?st)")
    case True
    with out out1 show ?thesis by auto
  next
    case False
    have "set (objKeys (foldl (mapColumn columns (fst ?st)) (snd ?st) (objKeys (fst ?st)))) \<subseteq>
        set (objKeys (snd ?st)) \<union> {name c |c. c \<in> set columns \<and> key c \<in> set (objKeys (fst ?st))}"
      by (rule mapColumn_keys_subset)
    moreover have "{name c |c. c \<in> set columns \<and> key c \<in> set (objKeys (fst ?st))} \<subseteq> ?C"
      using sub by blast
    ultimately have "set (objKeys (foldl (mapColumn columns (fst ?st)) (snd ?st) (objKeys (fst ?st))))
        \<subseteq> ?I \<union> ?C"
      unfolding out1 by blast
    with False out show ?thesis by simp
  qed
  have lower: "?I \<subseteq> set (objKeys ?out)"
  proof (cases "isArrayLike (fst ?st)")
    case True
    with out out1 show ?thesis by auto
  next
    case False
    with out out1 mapColumn_keys_mono [of "snd ?st" columns "fst ?st" "objKeys (fst ?st)"]
    show ?thesis by auto
  qed
  show ?thesis
  proof (intro conjI ballI impI)
    show "set (objKeys ?out) \<subseteq> ?I \<union> ?C" by (rule upper)
  next
    fix n assume "n \<in> set internalNames" "truthy (objGet row n)"
    with lower show "n \<in> set (objKeys ?out)" by blast
  next
    fix n assume n: "n \<in> set internalNames" "n \<notin> name ` set columns"
    then have "n \<notin> ?C" by blast
    with upper lower n(1) show "n \<in> set (objKeys ?out) \<longleftrightarrow> truthy (objGet row n)"
      by blast
  next
    fix k assume "k \<in> set (objKeys row)" "k \<notin> set internalNames \<and> k \<notin> name ` set columns"
    then have "k \<notin> ?I \<union> ?C" by blast
    with upper show "k \<notin> set (objKeys ?out)" by blast
  qed
qed

lemma length_not_internal: "''length'' \<notin> set internalNames"
  by (simp add: internalNames_def)

lemma isArrayLike_moveInternal:
  "isArrayLike (fst (foldl moveInternal (row, out) internalNames)) = isArrayLike row"
  by (simp add: isArrayLike_def moveInternal_row_get [OF length_not_internal])

text \<open>
  Claim C7, as amended. Let the columns of the table have pairwise distinct keys and
  pairwise distinct names, and let the row have no array-like \<^verbatim>\<open>length\<close>. For every column
  whose key and name are not reserved (and whose name is not \<^verbatim>\<open>__proto__\<close>), whose key is in
  the row, with a value that is a boolean, a number, a string or an array of strings:
  \<^verbatim>\<open>rowMapColumnsFromKeysToNames\<close> followed by \<^verbatim>\<open>rowFormatColumns\<close> with the names of the
  table's columns gives, under the column's name, the value the row held under its key.
\<close>

theorem rowMap_then_format_roundtrip:
  assumes "distinct (map key columns)" and "distinct (map name columns)"
    and "\<not> isArrayLike row"
    and "c \<in> set columns"
    and "key c \<notin> set internalNames" and "name c \<notin> set internalNames"
    and "name c \<noteq> ''__proto__''"
    and "key c \<in> set (objKeys row)"
    and "isWhitelisted (objGet row (key c))"
  shows "objGet (rowFormatColumns (rowMapColumnsFromKeysToNames row columns) (map name columns))
           (name c) = objGet row (key c)"
proof -
  let ?st = "foldl moveInternal (row, []) internalNames"
  let ?r1 = "fst ?st"
  let ?o1 = "snd ?st"
  let ?out = "rowMapColumnsFromKeysToNames row columns"
  have out: "?out = foldl (mapColumn columns ?r1) ?o1 (objKeys ?r1)"
    using assms(3) by (simp add: rowMapColumnsFromKeysToNames_def case_prod_beta
        isArrayLike_moveInternal)
  have v: "objGet ?r1 (key c) = objGet row (key c)"
    by (rule moveInternal_row_get [OF assms(5)])
  have k: "key c \<in> set (objKeys ?r1)"
    using moveInternal_row_keys [OF assms(5), of row "[]"] assms(8) by simp
  have f: "find (\<lambda>c'. key c' = key c) columns = Some c"
    by (rule find_key_distinct [OF assms(1,4)])
  have inj: "inj_on name (set columns)"
    using assms(2) by (simp add: distinct_map)
  have same: "\<forall>k \<in> set (objKeys ?r1). \<forall>c'. find (\<lambda>c. key c = k) columns = Some c' \<and> name c' = name c
            \<longrightarrow> objGet ?r1 k = objGet ?r1 (key c)"
  proof (intro ballI allI impI)
    fix k c'
    assume "k \<in> set (objKeys ?r1)"
      and a: "find (\<lambda>c. key c = k) columns = Some c' \<and> name c' = name c"
    from find_key_Some [OF a [THEN conjunct1]] have c': "c' \<in> set columns" "key c' = k"
      by simp_all
    from inj c'(1) assms(4) a have "c' = c" by (auto dest: inj_onD)
    with c'(2) show "objGet ?r1 k = objGet ?r1 (key c)" by simp
  qed
  have ex: "\<exists>k \<in> set (objKeys ?r1). \<exists>c'. find (\<lambda>c. key c = k) columns = Some c' \<and> name c' = name c"
    using k f by blast
  have "objGet ?out (name c) = objGet ?r1 (key c)"
    unfolding out using mapColumn_get [OF assms(7) same, of ?o1] ex by simp
  then have o: "objGet ?out (name c) = objGet row (key c)"
    by (simp add: v)
  have "name c \<in> set (map name columns)"
    using assms(4) by simp
  then have "objGet (rowFormatColumns ?out (map name columns)) (name c) =
      rowFormatColumn (objGet ?out (name c))"
    using objGet_foldl_objSet [OF assms(7), of "\<lambda>c. rowFormatColumn (objGet ?out c)" "[]"
        "map name columns"]
    by (simp add: rowFormatColumns_def)
  with o assms(9) show ?thesis
    by (simp add: rowFormatColumn_whitelist)
qed

lemma not_isArrayIndex_letter:
  "\<not> isDigit c \<Longrightarrow> \<not> isArrayIndex (c # s)"
  by (simp add: isArrayIndex_def)

theorem rowMapColumnsFromKeysToNames_keys_witness:
  "''_id'' \<in> set (objKeys (rowMapColumnsFromKeysToNames
       [(''_id'', JStr ''r1''), (''_mtime'', JStr ''''), (''k1'', JStr ''v''), (''zz'', JNum 3)]
       [\<lparr>key = ''k1'', name = ''Title'', type = ''text''\<rparr>]))
   \<and> ''_mtime'' \<notin> set (objKeys (rowMapColumnsFromKeysToNames
       [(''_id'', JStr ''r1''), (''_mtime'', JStr ''''), (''k1'', JStr ''v''), (''zz'', JNum 3)]
       [\<lparr>key = ''k1'', name = ''Title'', type = ''text''\<rparr>]))
   \<and> ''zz'' \<notin> set (objKeys (rowMapColumnsFromKeysToNames
       [(''_id'', JStr ''r1''), (''_mtime'', JStr ''''), (''k1'', JStr ''v''), (''zz'', JNum 3)]
       [\<lparr>key = ''k1'', name = ''Title'', type = ''text''\<rparr>]))"
proof -
  let ?row = "[(''_id'', JStr ''r1''), (''_mtime'', JStr ''''), (''k1'', JStr ''v''), (''zz'', JNum 3)] :: IRow"
  let ?cols = "[\<lparr>key = ''k1'', name = ''Title'', type = ''text''\<rparr>]"
  note t = rowMapColumnsFromKeysToNames_keys [of ?row ?cols]
  have i1: "''_id'' \<in> set internalNames" and i2: "''_mtime'' \<in> set internalNames"
    by (simp_all add: internalNames_def)
  have t1: "truthy (objGet ?row ''_id'')" by (simp add: objGet_def)
  have t2: "\<not> truthy (objGet ?row ''_mtime'')" by (simp add: objGet_def)
  have n2: "''_mtime'' \<notin> name ` set ?cols" by simp
  have z: "''zz'' \<in> set (objKeys ?row)" by (simp add: objKeys_def)
  have nz: "''zz'' \<notin> set internalNames \<and> ''zz'' \<notin> name ` set ?cols"
    by (simp add: internalNames_def)
  have a: "''_id'' \<in> set (objKeys (rowMapColumnsFromKeysToNames ?row ?cols))"
    by (rule t [THEN conjunct2, THEN conjunct1, THEN bspec, OF i1, THEN mp, OF t1])
  have b: "''_mtime'' \<notin> set (objKeys (rowMapColumnsFromKeysToNames ?row ?cols))"
    using t [THEN conjunct2, THEN conjunct2, THEN conjunct1, THEN bspec, OF i2, THEN mp, OF n2] t2
    by simp
  have c: "''zz'' \<notin> set (objKeys (rowMapColumnsFromKeysToNames ?row ?cols))"
    by (rule t [THEN conjunct2, THEN conjunct2, THEN conjunct2, THEN bspec, OF z, THEN mp, OF nz])
  from a b c show ?thesis by (intro conjI)
qed

lemma eval_moveInternal_none:
  "\<forall>n \<in> set internalNames. \<not> truthy (objGet row n) \<Longrightarrow>
   foldl moveInternal (row, out) internalNames = (row, out)"
  by (simp add: internalNames_def moveInternal_def)

text \<open>
  A column may be named like a reserved field: the output then has that field although the
  input row has no truthy value for it.
\<close>

theorem rowMapColumnsFromKeysToNames_internal_counterexample:
  "rowMapColumnsFromKeysToNames [(''k'', JStr ''x'')]
      [\<lparr>key = ''k'', name = ''_id'', type = ''text''\<rparr>] = [(''_id'', JStr ''x'')]
   \<and> \<not> truthy (objGet [(''k'', JStr ''x'')] ''_id'')"
proof -
  let ?row = "[(''k'', JStr ''x'')] :: IRow"
  have g: "objGet ?row n = JUndefined" if "n \<in> set internalNames" for n
    using that by (auto simp: internalNames_def objGet_def objectPrototypeNames_def)
  then have "\<forall>n \<in> set internalNames. \<not> truthy (objGet ?row n)" by simp
  from eval_moveInternal_none [OF this, of "[]"]
  have m: "foldl moveInternal (?row, []) internalNames = (?row, [])" .
  have l: "\<not> isArrayLike ?row"
    by (simp add: isArrayLike_def objGet_def objectPrototypeNames_def)
  have u: "\<not> isArrayIndex ''_id''"
    by (rule not_isArrayIndex_letter) (simp add: isDigit_def)
  have "rowMapColumnsFromKeysToNames ?row [\<lparr>key = ''k'', name = ''_id'', type = ''text''\<rparr>] =
      [(''_id'', JStr ''x'')]"
    by (simp add: rowMapColumnsFromKeysToNames_def m l objKeys_def mapColumn_def objGet_def
        objSet_def objCreate_def u)
  moreover have "\<not> truthy (objGet ?row ''_id'')"
    using g [of "''_id''"] by (simp add: internalNames_def)
  ultimately show ?thesis by simp
qed

theorem rowMap_then_format_roundtrip_witness:
  "objGet (rowFormatColumns
      (rowMapColumnsFromKeysToNames
         [(''_id'', JStr ''r''), (''k1'', JStr ''v''), (''k2'', JArr [JStr ''a''])]
         [\<lparr>key = ''k1'', name = ''Title'', type = ''text''\<rparr>,
          \<lparr>key = ''k2'', name = ''Tags'', type = ''multiple-select''\<rparr>])
      (map name [\<lparr>key = ''k1'', name = ''Title'', type = ''text''\<rparr>,
          \<lparr>key = ''k2'', name = ''Tags'', type = ''multiple-select''\<rparr>])) ''Tags''
     = JArr [JStr ''a'']"
proof -
  let ?row = "[(''_id'', JStr ''r''), (''k1'', JStr ''v''), (''k2'', JArr [JStr ''a''])] :: IRow"
  let ?c = "\<lparr>key = ''k2'', name = ''Tags'', type = ''multiple-select''\<rparr>"
  let ?cols = "[\<lparr>key = ''k1'', name = ''Title'', type = ''text''\<rparr>, ?c]"
  have 1: "distinct (map key ?cols)" and 2: "distinct (map name ?cols)" by simp_all
  have 3: "\<not> isArrayLike ?row"
    by (simp add: isArrayLike_def objGet_def objectPrototypeNames_def)
  have 4: "?c \<in> set ?cols" by simp
  have 5: "key ?c \<notin> set internalNames" and 6: "name ?c \<notin> set internalNames"
    by (simp_all add: internalNames_def)
  have 7: "name ?c \<noteq> ''__proto__''" by simp
  have 8: "key ?c \<in> set (objKeys ?row)" by (simp add: objKeys_def)
  have g: "objGet ?row (key ?c) = JArr [JStr ''a'']" by (simp add: objGet_def)
  have 9: "isWhitelisted (objGet ?row (key ?c))" unfolding g by simp
  from rowMap_then_format_roundtrip [OF 1 2 3 4 5 6 7 8 9] g
  show ?thesis by simp
qed

text \<open>Two columns of the same name: the later key of the row overwrites the earlier one.\<close>

theorem rowMap_then_format_duplicate_name_counterexample:
  "objGet (rowFormatColumns
      (rowMapColumnsFromKeysToNames [(''k1'', JNum 1), (''k2'', JNum 2)]
         [\<lparr>key = ''k1'', name = ''A'', type = ''number''\<rparr>,
          \<lparr>key = ''k2'', name = ''A'', type = ''number''\<rparr>])
      (map name [\<lparr>key = ''k1'', name = ''A'', type = ''number''\<rparr>,
          \<lparr>key = ''k2'', name = ''A'', type = ''number''\<rparr>])) ''A'' = JNum 2
   \<and> objGet [(''k1'', JNum 1), (''k2'', JNum 2)] ''k1'' = JNum 1"
proof -
  let ?row = "[(''k1'', JNum 1), (''k2'', JNum 2)] :: IRow"
  let ?cols = "[\<lparr>key = ''k1'', name = ''A'', type = ''number''\<rparr>,
          \<lparr>key = ''k2'', name = ''A'', type = ''number''\<rparr>]"
  have g: "objGet ?row n = JUndefined" if "n \<in> set internalNames" for n
    using that by (auto simp: internalNames_def objGet_def objectPrototypeNames_def)
  then have "\<forall>n \<in> set internalNames. \<not> truthy (objGet ?row n)" by simp
  from eval_moveInternal_none [OF this, of "[]"]
  have m: "foldl moveInternal (?row, []) internalNames = (?row, [])" .
  have l: "\<not> isArrayLike ?row"
    by (simp add: isArrayLike_def objGet_def objectPrototypeNames_def)
  have u: "\<not> isArrayIndex ''A''"
    by (rule not_isArrayIndex_letter) (simp add: isDigit_def)
  have out: "rowMapColumnsFromKeysToNames ?row ?cols = [(''A'', JNum 2)]"
    by (simp add: rowMapColumnsFromKeysToNames_def m l objKeys_def mapColumn_def objGet_def
        objSet_def objCreate_def u)
  have "objGet (rowFormatColumns [(''A'', JNum 2)] (map name ?cols)) ''A'' = JNum 2"
    by (simp add: rowFormatColumns_def objGet_def objSet_def objKeys_def objCreate_def u)
  moreover have "objGet ?row ''k1'' = JNum 1" by (simp add: objGet_def)
  ultimately show ?thesis unfolding out by simp
qed

section \<open>Properties of \<^verbatim>\<open>rowsTimeFilter\<close> and \<^verbatim>\<open>rowsTimeSort\<close>\<close>

lemma insertSorted_insort_key:
  assumes "\<forall>y \<in> set ys. comparer x y \<le> 0 \<longleftrightarrow> f x \<le> f y"
  shows "insertSorted comparer x ys = insort_key f x ys"
  using assms by (induction ys) auto

lemma baseSortBy_sort_key:
  assumes "\<forall>x \<in> set xs. \<forall>y \<in> set xs. comparer x y \<le> 0 \<longleftrightarrow> f x \<le> f y"
  shows "baseSortBy comparer xs = sort_key f xs"
  using assms
proof (induction xs)
  case Nil
  show ?case by (simp add: baseSortBy_def)
next
  case (Cons x xs)
  then have IH: "baseSortBy comparer xs = sort_key f xs" by simp
  have "\<forall>y \<in> set (sort_key f xs). comparer x y \<le> 0 \<longleftrightarrow> f x \<le> f y"
    using Cons.prems by simp
  then have "insertSorted comparer x (sort_key f xs) = insort_key f x (sort_key f xs)"
    by (rule insertSorted_insort_key)
  with IH show ?case
    by (simp add: baseSortBy_def sort_key_def)
qed

lemma rowsSequenceFrom_get_other:
  "k \<noteq> ''_seq'' \<Longrightarrow>
   map (\<lambda>row. objGet row k) (rowsSequenceFrom i rows) = map (\<lambda>row. objGet row k) rows"
  by (induction rows arbitrary: i) (simp_all add: objGet_objSet_other)

lemma rowsSequenceFrom_get_seq:
  "map (\<lambda>row. objGet row ''_seq'') (rowsSequenceFrom i rows) =
   map (\<lambda>j. JNum (int (i + j) + 1)) [0..<length rows]"
proof (induction rows arbitrary: i)
  case Nil
  show ?case by simp
next
  case (Cons row rows)
  show ?case
    by (simp add: Cons.IH objGet_objSet_same map_upt_Suc [of _ "length rows"] del: upt_Suc)
qed

lemma isJStr_iff: "isJStr v \<longleftrightarrow> (\<exists>s. v = JStr s)"
  by (cases v) auto

lemma isJNum_iff: "isJNum v \<longleftrightarrow> (\<exists>n. v = JNum n)"
  by (cases v) auto

lemma isStringColumn_iff:
  "isStringColumn c rows \<longleftrightarrow> (\<forall>row \<in> set rows. \<exists>s. objGet row c = JStr s)"
  by (simp add: isStringColumn_def list_all_iff isJStr_iff)

lemma timestampOf_str: "objGet row c = JStr s \<Longrightarrow> timestampOf c row = s"
  by (simp add: timestampOf_def)

lemma seqOf_num: "objGet row ''_seq'' = JNum n \<Longrightarrow> seqOf row = n"
  by (simp add: seqOf_def)

lemma isSequenced_iff:
  "isSequenced rows \<longleftrightarrow> (\<forall>row \<in> set rows. \<exists>n. objGet row ''_seq'' = JNum n)"
  by (simp add: isSequenced_def list_all_iff isJNum_iff)

lemma rowsSequence_fresh:
  assumes "rows = [] \<or> objGet (hd rows) ''_seq'' = JUndefined"
  shows "rowsSequence rows = rowsSequenceFrom 0 rows"
  using assms by (cases rows) (simp_all add: rowsSequence_def)

lemma rowsSequence_sequenced:
  assumes "isSequenced rows"
  shows "rowsSequence rows = rows"
proof (cases rows)
  case Nil
  then show ?thesis by (simp add: rowsSequence_def)
next
  case (Cons first rest)
  with assms obtain n where "objGet first ''_seq'' = JNum n"
    by (auto simp: isSequenced_iff)
  with Cons show ?thesis by (simp add: rowsSequence_def)
qed

lemma set_map_eq_nth:
  assumes "map f xs = map g ys" "x \<in> set xs"
  shows "\<exists>y \<in> set ys. f x = g y"
proof -
  from assms(2) have "f x \<in> set (map f xs)" by simp
  with assms(1) have "f x \<in> set (map g ys)" by simp
  then show ?thesis by auto
qed

lemma sequenced_after_rowsSequenceFrom: "isSequenced (rowsSequenceFrom i rows)"
proof -
  have "\<exists>n. objGet row ''_seq'' = JNum n" if "row \<in> set (rowsSequenceFrom i rows)" for row
    using set_map_eq_nth [OF rowsSequenceFrom_get_seq that] by auto
  then show ?thesis by (simp add: isSequenced_iff)
qed

lemma rowsSequence_cases:
  "rowsSequence rows =
     (if rows = [] \<or> objGet (hd rows) ''_seq'' = JUndefined then rowsSequenceFrom 0 rows
      else rows)"
  by (cases rows) (simp_all add: rowsSequence_def)

lemma rowsSequence_get_other:
  "k \<noteq> ''_seq'' \<Longrightarrow>
   map (\<lambda>row. objGet row k) (rowsSequence rows) = map (\<lambda>row. objGet row k) rows"
  by (simp add: rowsSequence_cases rowsSequenceFrom_get_other)

lemma isTimestamp_iff: "isTimestamp v \<longleftrightarrow> (\<exists>s. v = JStr s) \<or> v = JUndefined"
  by (cases v) auto

lemma isSeqValue_iff: "isSeqValue v \<longleftrightarrow> (\<exists>n. v = JNum n) \<or> v = JUndefined"
  by (cases v) auto

lemma isTimestampColumn_iff:
  "isTimestampColumn c rows \<longleftrightarrow> (\<forall>row \<in> set rows. isTimestamp (objGet row c))"
  by (simp add: isTimestampColumn_def list_all_iff)

lemma hasSeqNumbers_iff:
  "hasSeqNumbers rows \<longleftrightarrow> (\<forall>row \<in> set rows. isSeqValue (objGet row ''_seq''))"
  by (simp add: hasSeqNumbers_def list_all_iff)

lemma sequenced_hasSeqNumbers: "isSequenced rows \<Longrightarrow> hasSeqNumbers rows"
  by (auto simp: isSequenced_iff hasSeqNumbers_iff)

lemma hasSeqNumbers_rowsSequence: "hasSeqNumbers rows \<Longrightarrow> hasSeqNumbers (rowsSequence rows)"
  by (simp add: rowsSequence_cases sequenced_after_rowsSequenceFrom sequenced_hasSeqNumbers)

lemma rowsSequence_value:
  assumes "k \<noteq> ''_seq''" "row \<in> set (rowsSequence rows)"
  shows "\<exists>y \<in> set rows. objGet row k = objGet y k"
  using set_map_eq_nth [OF rowsSequence_get_other [OF assms(1)] assms(2)] .

lemma isTimestampColumn_rowsSequence:
  assumes "c \<noteq> ''_seq''" "isTimestampColumn c rows"
  shows "isTimestampColumn c (rowsSequence rows)"
  unfolding isTimestampColumn_iff
proof
  fix row assume "row \<in> set (rowsSequence rows)"
  from rowsSequence_value [OF assms(1) this] obtain y
    where "y \<in> set rows" "objGet row c = objGet y c" by blast
  with assms(2) show "isTimestamp (objGet row c)" by (simp add: isTimestampColumn_iff)
qed

lemma isStringColumn_rowsSequence:
  assumes "c \<noteq> ''_seq''" "isStringColumn c rows"
  shows "isStringColumn c (rowsSequence rows)"
  unfolding isStringColumn_iff
proof
  fix row assume "row \<in> set (rowsSequence rows)"
  from rowsSequence_value [OF assms(1) this] obtain y
    where "y \<in> set rows" "objGet row c = objGet y c" by blast
  with assms(2) show "\<exists>s. objGet row c = JStr s" by (simp add: isStringColumn_iff)
qed

lemma isAfter_string: "isAfter c startDate row \<Longrightarrow> \<exists>s. objGet row c = JStr s"
  by (cases "objGet row c") (simp_all add: isAfter_def)

lemma rowsTimeFilter_timestamps:
  assumes "isTimestampColumn c (rowsSequence rows)"
  shows "rowsTimeFilter rt rows c startDate =
         filter (isAfter c startDate) (rowsSequence rows)"
  unfolding rowsTimeFilter_def
proof (rule filter_cong [OF refl])
  fix row assume "row \<in> set (rowsSequence rows)"
  with assms have "isTimestamp (objGet row c)" by (simp add: isTimestampColumn_iff)
  then consider s where "objGet row c = JStr s" | "objGet row c = JUndefined"
    by (auto simp: isTimestamp_iff)
  then show "jsGreater rt (objGet row c) (JStr startDate) = isAfter c startDate row"
    by cases (simp_all add: isAfter_def)
qed

lemma compareAscending_str:
  "compareAscending rt (JStr s) (JStr t) = (if s = t then 0 else if t < s then 1 else - 1)"
  by (auto simp: compareAscending_def strictEquals_def)

lemma compareAscending_seq:
  assumes "isSeqValue q" "isSeqValue q'"
  shows "compareAscending rt q q' =
         (if seqRankOf q = seqRankOf q' then 0 else if seqRankOf q' < seqRankOf q then 1 else - 1)"
proof -
  from assms(1) consider m where "q = JNum m" | "q = JUndefined"
    by (auto simp: isSeqValue_iff)
  then show ?thesis
  proof cases
    case 1
    from assms(2) consider n where "q' = JNum n" | "q' = JUndefined"
      by (auto simp: isSeqValue_iff)
    then show ?thesis
      using 1 by cases (auto simp: compareAscending_def strictEquals_def)
  next
    case 2
    from assms(2) consider n where "q' = JNum n" | "q' = JUndefined"
      by (auto simp: isSeqValue_iff)
    then show ?thesis
      using 2 by cases (auto simp: compareAscending_def strictEquals_def)
  qed
qed

lemma compareMultiple_key:
  assumes "isSeqValue q" "isSeqValue q'"
  shows "compareMultiple rt ([JStr s, q], i, r) ([JStr t, q'], j, r') \<le> 0
     \<longleftrightarrow> (s, seqRankOf q, i) \<le> (t, seqRankOf q', j)"
proof -
  have "compareMultiple rt ([JStr s, q], i, r) ([JStr t, q'], j, r') =
      (if s \<noteq> t then (if t < s then 1 else - 1)
       else if seqRankOf q \<noteq> seqRankOf q' then (if seqRankOf q' < seqRankOf q then 1 else - 1)
       else int i - int j)"
    by (simp add: compareMultiple_def compareAscending_str compareAscending_seq [OF assms]
        Let_def)
  then show ?thesis by auto
qed

lemma not_deep_seq: "\<not> isDeepPath ''_seq''"
  by (simp add: isDeepPath_def)

lemma hasProperty_string: "objGet ob c = JStr s \<Longrightarrow> hasProperty ob c"
  by (auto simp: objGet_def hasProperty_def objKeys_def split: option.splits if_splits
      dest: map_of_SomeD intro: rev_image_eqI)

lemma property_string: "objGet ob c = JStr s \<Longrightarrow> property rt c ob = objGet ob c"
  by (simp add: property_def hasProperty_string)

lemma property_seq: "property rt ''_seq'' ob = objGet ob ''_seq''"
  by (simp add: property_def not_deep_seq)

lemma orderBy_entries:
  assumes "isStringColumn c rows"
  shows "orderBy rt rows [c, ''_seq''] =
     map (\<lambda>entry. snd (snd entry)) (baseSortBy (compareMultiple rt) (entriesOf c rows))"
proof -
  have "map (\<lambda>(index, value). (map (\<lambda>path. property rt path value) [c, ''_seq''], index, value))
          (enumerate 0 rows) = entriesOf c rows"
    unfolding entriesOf_def
  proof (rule map_cong [OF refl])
    fix x assume "x \<in> set (enumerate 0 rows)"
    then have "snd x \<in> snd ` set (enumerate 0 rows)" by (rule imageI)
    moreover have "snd ` set (enumerate 0 rows) = set rows"
      by (metis map_snd_enumerate set_map)
    ultimately have "snd x \<in> set rows" by simp
    with assms obtain s where "objGet (snd x) c = JStr s"
      unfolding isStringColumn_iff by blast
    then have "property rt c (snd x) = objGet (snd x) c" by (rule property_string)
    then show "(case x of (index, value) \<Rightarrow>
          (map (\<lambda>path. property rt path value) [c, ''_seq''], index, value)) =
        (case x of (index, value) \<Rightarrow> ([objGet value c, objGet value ''_seq''], index, value))"
      by (simp add: case_prod_beta property_seq)
  qed
  then show ?thesis by (simp add: orderBy_def)
qed

lemma map_value_entriesOf: "map (\<lambda>entry. snd (snd entry)) (entriesOf c rows) = rows"
proof -
  have "map (\<lambda>entry. snd (snd entry)) (entriesOf c rows) = map snd (enumerate 0 rows)"
    by (simp add: entriesOf_def case_prod_beta comp_def)
  then show ?thesis by simp
qed

lemma entriesOf_shape:
  assumes "isStringColumn c rows" "hasSeqNumbers rows" "e \<in> set (entriesOf c rows)"
  shows "\<exists>s q. e = ([JStr s, q], fst (snd e), snd (snd e)) \<and> isSeqValue q
           \<and> entryKey c e = (s, seqRankOf q, fst (snd e))"
proof -
  from assms(3) obtain i r where ir: "(i, r) \<in> set (enumerate 0 rows)"
    and e: "e = ([objGet r c, objGet r ''_seq''], i, r)"
    by (auto simp: entriesOf_def)
  from ir have "r \<in> set rows" by (auto simp: in_set_enumerate_eq)
  with assms(1) obtain s where "objGet r c = JStr s"
    unfolding isStringColumn_iff by blast
  moreover from \<open>r \<in> set rows\<close> assms(2) have "isSeqValue (objGet r ''_seq'')"
    unfolding hasSeqNumbers_iff by blast
  ultimately show ?thesis using e
    by (simp add: entryKey_def timestampOf_def seqRank_def)
qed

lemma baseSortBy_entries:
  assumes "isStringColumn c rows" "hasSeqNumbers rows"
  shows "baseSortBy (compareMultiple rt) (entriesOf c rows) = sort_key (entryKey c) (entriesOf c rows)"
proof (rule baseSortBy_sort_key, intro ballI)
  fix x y assume "x \<in> set (entriesOf c rows)" "y \<in> set (entriesOf c rows)"
  from entriesOf_shape [OF assms this(1)] obtain s q
    where x: "x = ([JStr s, q], fst (snd x), snd (snd x))" "isSeqValue q"
      "entryKey c x = (s, seqRankOf q, fst (snd x))"
    by blast
  from entriesOf_shape [OF assms \<open>y \<in> set (entriesOf c rows)\<close>] obtain t q'
    where y: "y = ([JStr t, q'], fst (snd y), snd (snd y))" "isSeqValue q'"
      "entryKey c y = (t, seqRankOf q', fst (snd y))"
    by blast
  have "compareMultiple rt x y \<le> 0 \<longleftrightarrow> (s, seqRankOf q, fst (snd x)) \<le> (t, seqRankOf q', fst (snd y))"
    by (subst x(1), subst y(1)) (rule compareMultiple_key [OF x(2) y(2)])
  with x(3) y(3) show "compareMultiple rt x y \<le> 0 \<longleftrightarrow> entryKey c x \<le> entryKey c y"
    by simp
qed

lemma orderBy_sorted:
  assumes "isStringColumn c rows" "hasSeqNumbers rows"
  shows "mset (orderBy rt rows [c, ''_seq'']) = mset rows"
    and "sorted (map (\<lambda>row. (timestampOf c row, seqRank row)) (orderBy rt rows [c, ''_seq'']))"
proof -
  let ?E = "entriesOf c rows"
  let ?S = "sort_key (entryKey c) ?E"
  have o: "orderBy rt rows [c, ''_seq''] = map (\<lambda>entry. snd (snd entry)) ?S"
    by (simp add: orderBy_entries [OF assms(1)] baseSortBy_entries [OF assms])
  have "mset (map (\<lambda>entry. snd (snd entry)) ?S) = mset (map (\<lambda>entry. snd (snd entry)) ?E)"
    by simp
  then show "mset (orderBy rt rows [c, ''_seq'']) = mset rows"
    by (simp add: o map_value_entriesOf)
  have "sorted (map (entryKey c) ?S)" by (rule sorted_sort_key)
  then have "sorted_wrt (\<lambda>x y. entryKey c x \<le> entryKey c y) ?S"
    by (simp add: sorted_map)
  then have "sorted_wrt (\<lambda>x y. (timestampOf c (snd (snd x)), seqRank (snd (snd x)))
       \<le> (timestampOf c (snd (snd y)), seqRank (snd (snd y)))) ?S"
    by (rule sorted_wrt_mono_rel [rotated]) (auto simp: entryKey_def)
  then show "sorted (map (\<lambda>row. (timestampOf c row, seqRank row)) (orderBy rt rows [c, ''_seq'']))"
    by (simp add: o sorted_map sorted_wrt_map)
qed

lemma filter_sequenced: "isSequenced rows \<Longrightarrow> isSequenced (filter P rows)"
  by (auto simp: isSequenced_iff)

lemma filter_hasSeqNumbers: "hasSeqNumbers rows \<Longrightarrow> hasSeqNumbers (filter P rows)"
  by (auto simp: hasSeqNumbers_iff)

lemma filter_isAfter_strings: "isStringColumn c (filter (isAfter c startDate) rows)"
  by (auto simp: isStringColumn_iff dest: isAfter_string)

lemma rowsTimeFilter_filter:
  "rowsTimeFilter rt rows c startDate =
     filter (\<lambda>row. jsGreater rt (objGet row c) (JStr startDate)) (rowsSequence rows)"
  by (simp add: rowsTimeFilter_def)

lemma orderBy_Nil: "orderBy rt [] iteratees = []"
  by (simp add: orderBy_def baseSortBy_def)

lemma rowsTimeSort_Nil: "rowsTimeSort rt [] c = []"
  by (simp add: rowsTimeSort_def rowsSequence_def orderBy_Nil)

lemma seq_column_empty:
  assumes "isTimestampColumn ''_seq'' rows" "hasSeqNumbers rows"
  shows "filter (isAfter ''_seq'' startDate) rows = []"
proof -
  have "\<not> isAfter ''_seq'' startDate row" if "row \<in> set rows" for row
  proof
    assume "isAfter ''_seq'' startDate row"
    then obtain s where "objGet row ''_seq'' = JStr s" by (auto dest: isAfter_string)
    moreover from that assms(2) have "isSeqValue (objGet row ''_seq'')"
      by (simp add: hasSeqNumbers_iff)
    ultimately show False by simp
  qed
  then show ?thesis by (simp add: filter_empty_conv)
qed


lemma ex_seq:
  "rowsSequence [[(''_ctime'', JStr ''T0''), (''Name'', JStr ''a'')],
                 [(''_ctime'', JStr ''T2''), (''Name'', JStr ''b'')],
                 [(''_ctime'', JStr ''T1''), (''Name'', JStr ''c'')]] =
     [[(''_ctime'', JStr ''T0''), (''Name'', JStr ''a''), (''_seq'', JNum 1)],
      [(''_ctime'', JStr ''T2''), (''Name'', JStr ''b''), (''_seq'', JNum 2)],
      [(''_ctime'', JStr ''T1''), (''Name'', JStr ''c''), (''_seq'', JNum 3)]]"
proof -
  have s: "\<not> isArrayIndex ''_seq''"
    by (simp add: isArrayIndex_def isDigit_def)
  show ?thesis
    by (simp add: rowsSequence_def objGet_def objectPrototypeNames_def objSet_def objKeys_def
        objCreate_def s)
qed

lemma ex_filter:
  "rowsTimeFilter rt0 [[(''_ctime'', JStr ''T0''), (''Name'', JStr ''a'')],
                 [(''_ctime'', JStr ''T2''), (''Name'', JStr ''b'')],
                 [(''_ctime'', JStr ''T1''), (''Name'', JStr ''c'')]] ''_ctime'' ''T0'' =
     [[(''_ctime'', JStr ''T2''), (''Name'', JStr ''b''), (''_seq'', JNum 2)],
      [(''_ctime'', JStr ''T1''), (''Name'', JStr ''c''), (''_seq'', JNum 3)]]"
  by (simp add: rowsTimeFilter_def ex_seq objGet_def)

lemma ex_sort:
  "rowsTimeSort rt0
     [[(''_ctime'', JStr ''T2''), (''Name'', JStr ''b''), (''_seq'', JNum 2)],
      [(''_ctime'', JStr ''T1''), (''Name'', JStr ''c''), (''_seq'', JNum 3)]] ''_ctime'' =
     [[(''_ctime'', JStr ''T1''), (''Name'', JStr ''c''), (''_seq'', JNum 3)],
      [(''_ctime'', JStr ''T2''), (''Name'', JStr ''b''), (''_seq'', JNum 2)]]"
proof -
  have r: "rowsSequence [[(''_ctime'', JStr ''T2''), (''Name'', JStr ''b''), (''_seq'', JNum 2)],
      [(''_ctime'', JStr ''T1''), (''Name'', JStr ''c''), (''_seq'', JNum 3)]] =
     [[(''_ctime'', JStr ''T2''), (''Name'', JStr ''b''), (''_seq'', JNum 2)],
      [(''_ctime'', JStr ''T1''), (''Name'', JStr ''c''), (''_seq'', JNum 3)]]"
    by (simp add: rowsSequence_def objGet_def)
  have c: "compareAscending rt0 (JStr ''T2'') (JStr ''T1'') = 1"
    by (simp add: compareAscending_def strictEquals_def)
  show ?thesis
    by (simp add: rowsTimeSort_def r orderBy_def property_def isDeepPath_def enumerate_eq_zip
        upt_rec objGet_def baseSortBy_def compareMultiple_def c)
qed


section \<open>Properties of \<^verbatim>\<open>columnNamesToArray\<close>\<close>

lemma orElse_simps [simp]:
  "orElse None b = b" "orElse (Some y) b = Some y" "orElse a None = a" "orElse a a = a"
  by (simp_all add: orElse_def split: option.splits)

lemma orElse_assoc: "orElse (orElse a b) c = orElse a (orElse b c)"
  by (simp add: orElse_def split: option.splits)

lemma firstSome_append: "firstSome K (xs @ ys) = orElse (firstSome K xs) (firstSome K ys)"
  by (induction xs) (simp_all add: orElse_assoc)

lemma firstSome_concat_map:
  "firstSome K (concat (map f xs)) = firstSome (\<lambda>x. firstSome K (f x)) xs"
  by (induction xs) (simp_all add: firstSome_append)

lemma firstSome_filter:
  "firstSome K (filter P xs) = firstSome (\<lambda>x. if P x then K x else None) xs"
  by (induction xs) simp_all

lemma firstSome_map: "firstSome K (map f xs) = firstSome (\<lambda>x. K (f x)) xs"
  by (induction xs) simp_all

lemma firstSome_Some: "firstSome Some xs = (case xs of [] \<Rightarrow> None | x # _ \<Rightarrow> Some x)"
  by (cases xs) simp_all

lemma regexExec_runK: "regexExec r s = runK r Some (None, s)"
  by (simp add: regexExec_def runK_def firstSome_Some)

lemma runK_Empty: "runK Empty K st = K st"
  by (simp add: runK_def split: option.splits)

lemma runK_CharSet_Nil: "runK (CharSet p) K (c, []) = None"
  by (simp add: runK_def)

lemma runK_CharSet_Cons: "runK (CharSet p) K (c, x # xs) = (if p x then K (c, xs) else None)"
  by (simp add: runK_def split: option.splits)

lemma runK_Seq: "runK (Seq r1 r2) K st = runK r1 (runK r2 K) st"
  by (simp add: runK_def [abs_def] firstSome_concat_map)

lemma runK_Alt: "runK (Alt r1 r2) K st = orElse (runK r1 K st) (runK r2 K st)"
  by (simp add: runK_def firstSome_append)

lemma runK_EndOfInput: "runK EndOfInput K st = (if snd st = [] then K st else None)"
  by (simp add: runK_def split: option.splits)

lemma runK_Group:
  "runK (Group r) K st =
     runK r (\<lambda>st'. K (Some (take (length (snd st) - length (snd st')) (snd st)), snd st')) st"
  by (simp add: runK_def firstSome_map)

lemma matches_Star_greedy:
  "matches (Star True r) st =
     concat (map (matches (Star True r))
       (filter (\<lambda>st'. length (snd st') < length (snd st)) (matches r st))) @ [st]"
  by (subst matches.simps(6)) (simp only: Let_def if_True)

lemma matches_Star_lazy:
  "matches (Star False r) st =
     st # concat (map (matches (Star False r))
       (filter (\<lambda>st'. length (snd st') < length (snd st)) (matches r st)))"
  by (subst matches.simps(6)) (simp only: Let_def if_False)

lemma runK_Star_greedy:
  "runK (Star True r) K st =
     orElse (runK r (\<lambda>st'. if length (snd st') < length (snd st)
                            then runK (Star True r) K st' else None) st)
            (K st)"
proof -
  have "runK (Star True r) K st =
      firstSome K (concat (map (matches (Star True r))
       (filter (\<lambda>st'. length (snd st') < length (snd st)) (matches r st))) @ [st])"
    unfolding runK_def by (subst matches_Star_greedy) (rule refl)
  also have "\<dots> = orElse (firstSome (\<lambda>st'. if length (snd st') < length (snd st)
                            then firstSome K (matches (Star True r) st') else None) (matches r st))
            (K st)"
    by (simp only: firstSome_append firstSome_concat_map firstSome_filter firstSome.simps
        orElse_simps)
  finally show ?thesis by (simp only: runK_def)
qed

lemma runK_Star_lazy:
  "runK (Star False r) K st =
     orElse (K st)
            (runK r (\<lambda>st'. if length (snd st') < length (snd st)
                            then runK (Star False r) K st' else None) st)"
proof -
  have "runK (Star False r) K st =
      firstSome K (st # concat (map (matches (Star False r))
       (filter (\<lambda>st'. length (snd st') < length (snd st)) (matches r st))))"
    unfolding runK_def by (subst matches_Star_lazy) (rule refl)
  also have "\<dots> = orElse (K st) (firstSome (\<lambda>st'. if length (snd st') < length (snd st)
                            then firstSome K (matches (Star False r) st') else None) (matches r st))"
    by (simp only: firstSome_append firstSome_concat_map firstSome_filter firstSome.simps
        orElse_simps)
  finally show ?thesis by (simp only: runK_def)
qed

lemma not_space_comma: "\<not> isSpace comma"
  by (simp add: isSpace_def comma_def)

lemma not_space_backslash: "\<not> isSpace backslash"
  by (simp add: isSpace_def backslash_def)

lemma comma_not_backslash: "comma \<noteq> backslash"
  by (simp add: comma_def backslash_def)

lemma tailOK_Nil: "tailOK []"
  by (simp add: tailOK_def)

lemma tailOK_space: "isSpace x \<Longrightarrow> tailOK (x # xs) = tailOK xs"
  by (simp add: tailOK_def)

lemma tailOK_nonspace: "\<not> isSpace x \<Longrightarrow> tailOK (x # xs) = (x = comma)"
  by (simp add: tailOK_def)

lemma tailOK_dropWhile: "tailOK (dropWhile isSpace t) = tailOK t"
  by (simp add: tailOK_def dropWhile_idem)

lemma scanTok_Cons:
  "scanTok (x # xs) =
     (if tailOK (x # xs) then Some (x # xs)
      else if x = backslash then (case xs of [] \<Rightarrow> None | y # ys \<Rightarrow> scanTok ys)
      else scanTok xs)"
  by (cases xs) (simp_all add: tailOK_Nil)

lemma scanTok_tailOK: "tailOK t \<Longrightarrow> scanTok t = Some t"
  by (cases t) (simp_all add: scanTok_Cons)

lemma scanTok_Some_tailOK: "scanTok t = Some t' \<Longrightarrow> tailOK t'"
proof (induction t rule: scanTok.induct)
  case 1
  then show ?case by (simp add: tailOK_Nil)
next
  case (2 x)
  then show ?case by (auto simp: tailOK_Nil split: if_splits)
next
  case (3 x y ys)
  then show ?case by (auto split: if_splits)
qed

lemma runK_wsR: "runK wsR K (c, s) = (case s of [] \<Rightarrow> None | x # xs \<Rightarrow> if isSpace x then K (c, xs) else None)"
  by (cases s) (simp_all add: wsR_def runK_CharSet_Nil runK_CharSet_Cons)

lemma runK_plainR:
  "runK plainR K (c, s) =
     (case s of [] \<Rightarrow> None
      | x # xs \<Rightarrow> if x \<noteq> backslash \<and> x \<noteq> comma then K (c, xs) else None)"
  by (cases s) (simp_all add: plainR_def runK_CharSet_Nil runK_CharSet_Cons)

lemma runK_escR:
  "runK escR K (c, s) =
     (case s of
        x # y # ys \<Rightarrow> if x = backslash then K (c, ys) else None
      | _ \<Rightarrow> None)"
proof (cases s)
  case Nil
  then show ?thesis by (simp add: escR_def runK_Seq runK_CharSet_Nil)
next
  case (Cons x xs)
  then show ?thesis
    by (cases xs) (simp_all add: escR_def runK_Seq runK_CharSet_Nil runK_CharSet_Cons)
qed

lemma runK_tailR:
  "runK tailR K (c, s) =
     (case dropWhile isSpace s of
        [] \<Rightarrow> K (c, [])
      | x # xs \<Rightarrow> if x = comma then K (c, xs) else None)"
proof -
  let ?A = "Alt (CharSet (\<lambda>c. c = comma)) EndOfInput"
  have alt: "runK ?A K (c, t) = (case t of [] \<Rightarrow> K (c, []) | x # xs \<Rightarrow> if x = comma then K (c, xs) else None)"
    for t
    by (cases t) (simp_all add: runK_Alt runK_CharSet_Nil runK_CharSet_Cons runK_EndOfInput)
  have "runK (Star True wsR) (runK ?A K) (c, s) =
     (case dropWhile isSpace s of
        [] \<Rightarrow> K (c, [])
      | x # xs \<Rightarrow> if x = comma then K (c, xs) else None)"
  proof (induction s)
    case Nil
    show ?case
      by (subst runK_Star_greedy) (simp add: runK_wsR alt)
  next
    case (Cons x xs)
    show ?case
    proof (cases "isSpace x")
      case True
      then have "x \<noteq> comma" using not_space_comma by auto
      with True show ?thesis
        by (subst runK_Star_greedy) (simp add: runK_wsR alt Cons.IH)
    next
      case False
      then show ?thesis
        by (subst runK_Star_greedy) (simp add: runK_wsR alt)
    qed
  qed
  then show ?thesis by (simp add: tailR_def runK_Seq)
qed

lemma star_iter:
  assumes Kprop: "\<And>c t. (K (c, t) \<noteq> None) = tailOK t"
  shows "runK (Star False iterR) K (c, T) =
         (case scanTok T of None \<Rightarrow> None | Some t' \<Rightarrow> K (c, t'))"
proof (induction T arbitrary: c rule: length_induct)
  case (1 T)
  define R where "R c t = (case scanTok t of None \<Rightarrow> None | Some t' \<Rightarrow> K (c, t'))" for c t
  define K' where
    "K' st' = (if length (snd st') < length T then runK (Star False iterR) K st' else None)"
    for st'
  have IH: "runK (Star False iterR) K (c, t) = R c t" if "length t < length T" for c t
    using 1 that by (simp add: R_def)
  have K'short: "K' (c, t) = R c t" if "length t < length T" for c t
    using that by (simp add: K'_def IH)
  have K'T: "K' (c, T) = None" for c
    by (simp add: K'_def)
  have Rnone: "R c t = None \<longleftrightarrow> scanTok t = None" for c t
  proof (cases "scanTok t")
    case None
    then show ?thesis by (simp add: R_def)
  next
    case (Some t')
    from scanTok_Some_tailOK [OF Some] Kprop [of c t'] have "K (c, t') \<noteq> None" by simp
    with Some show ?thesis by (simp add: R_def)
  qed
  have Resc: "R c (backslash # y # ys) = R c ys" for c y ys
    by (simp add: R_def tailOK_nonspace not_space_backslash comma_not_backslash [symmetric])
  have Rplain: "R c (x # xs) = R c xs" if "\<not> tailOK (x # xs)" "x \<noteq> backslash" for c x xs
    using that by (simp add: R_def scanTok_Cons)
  have E: "runK (Star True escR) K' (c, t) = R c t" if "length t < length T" for c t
    using that
  proof (induction t rule: length_induct)
    case (1 t)
    have unfold: "runK (Star True escR) K' (c, t) =
        orElse (runK escR (\<lambda>st'. if length (snd st') < length (snd (c, t))
                            then runK (Star True escR) K' st' else None) (c, t))
               (K' (c, t))"
      by (rule runK_Star_greedy)
    show ?case
    proof (cases "\<exists>y ys. t = backslash # y # ys")
      case True
      then obtain y ys where t: "t = backslash # y # ys" by blast
      with 1 have "runK (Star True escR) K' (c, ys) = R c ys" by simp
      with t 1(2) show ?thesis
        unfolding unfold by (simp add: runK_escR K'short Resc)
    next
      case False
      then have "runK escR (\<lambda>st'. if length (snd st') < length (snd (c, t))
                            then runK (Star True escR) K' st' else None) (c, t) = None"
        by (auto simp: runK_escR split: list.splits)
      with 1(2) show ?thesis unfolding unfold by (simp add: K'short)
    qed
  qed
  have P: "runK (Star False plainR) (runK (Star True escR) K') (c, t) = R c t"
    if "length t < length T" for c t
    using that
  proof (induction t rule: length_induct)
    case (1 t)
    have unfold: "runK (Star False plainR) (runK (Star True escR) K') (c, t) =
        orElse (runK (Star True escR) K' (c, t))
          (runK plainR (\<lambda>st'. if length (snd st') < length (snd (c, t))
                            then runK (Star False plainR) (runK (Star True escR) K') st'
                            else None) (c, t))"
      by (rule runK_Star_lazy)
    show ?case
    proof (cases "R c t")
      case (Some r)
      with E [OF 1(2)] show ?thesis unfolding unfold by simp
    next
      case None
      then have sn: "scanTok t = None" by (simp add: Rnone)
      have "runK plainR (\<lambda>st'. if length (snd st') < length (snd (c, t))
                            then runK (Star False plainR) (runK (Star True escR) K') st'
                            else None) (c, t) = None"
      proof (cases t)
        case Nil
        then show ?thesis by (simp add: runK_plainR)
      next
        case (Cons x xs)
        show ?thesis
        proof (cases "x \<noteq> backslash \<and> x \<noteq> comma")
          case True
          from sn Cons have nt: "\<not> tailOK (x # xs)"
            using scanTok_tailOK [of t] by auto
          from 1 Cons have "runK (Star False plainR) (runK (Star True escR) K') (c, xs) = R c xs"
            by simp
          moreover from None Cons Rplain [OF nt] True have "R c xs = None" by simp
          ultimately show ?thesis using Cons True by (simp add: runK_plainR)
        next
          case False
          with Cons show ?thesis by (auto simp: runK_plainR)
        qed
      qed
      with E [OF 1(2)] None show ?thesis unfolding unfold by simp
    qed
  qed
  have unfoldT: "runK (Star False iterR) K (c, T) =
      orElse (K (c, T)) (runK iterR K' (c, T))"
    unfolding K'_def [abs_def] using runK_Star_lazy [of iterR K "(c, T)"] by simp
  show ?case
  proof (cases "tailOK T")
    case True
    with Kprop [of c T] obtain r where "K (c, T) = Some r" by auto
    with True show ?thesis unfolding unfoldT by (simp add: scanTok_tailOK)
  next
    case False
    with Kprop [of c T] have KT: "K (c, T) = None" by simp
    have it: "runK iterR K' (c, T) =
        orElse (runK (Star True escR) K' (c, T))
          (runK plainR (\<lambda>st'. if length (snd st') < length (snd (c, T))
                            then runK (Star False plainR) (runK (Star True escR) K') st'
                            else None) (c, T))"
      unfolding iterR_def runK_Seq by (rule runK_Star_lazy)
    have es: "runK (Star True escR) K' (c, T) =
        orElse (runK escR (\<lambda>st'. if length (snd st') < length (snd (c, T))
                            then runK (Star True escR) K' st' else None) (c, T))
               (K' (c, T))"
      by (rule runK_Star_greedy)
    from False obtain x xs where T: "T = x # xs" by (cases T) (auto simp: tailOK_Nil)
    from False T have xc: "x \<noteq> comma"
      using not_space_comma by (auto simp: tailOK_def split: if_splits)
    let ?E = "runK escR (\<lambda>st'. if length (snd st') < length (snd (c, T))
                            then runK (Star True escR) K' st' else None) (c, T)"
    let ?P = "runK plainR (\<lambda>st'. if length (snd st') < length (snd (c, T))
                            then runK (Star False plainR) (runK (Star True escR) K') st'
                            else None) (c, T)"
    have goal: "runK (Star False iterR) K (c, T) = orElse ?E ?P"
      unfolding unfoldT KT it es by (simp add: K'T)
    have "orElse ?E ?P = R c T"
    proof (cases "x = backslash")
      case True
      have p: "?P = None" using T True by (simp add: runK_plainR)
      show ?thesis
      proof (cases xs)
        case Nil
        have "?E = None" using T True Nil by (simp add: runK_escR)
        moreover have "R c T = None"
          using T True Nil
          by (simp add: R_def tailOK_nonspace not_space_backslash comma_not_backslash [symmetric])
        ultimately show ?thesis using p by simp
      next
        case (Cons y ys)
        have "runK (Star True escR) K' (c, ys) = R c ys"
          by (rule E) (simp add: T Cons)
        then have "?E = R c ys" using T True Cons by (simp add: runK_escR)
        moreover have "R c T = R c ys"
          using T True Cons Resc by simp
        ultimately show ?thesis using p by simp
      qed
    next
      case nb: False
      have "runK (Star False plainR) (runK (Star True escR) K') (c, xs) = R c xs"
        by (rule P) (simp add: T)
      then have "?P = R c xs" using T nb xc by (simp add: runK_plainR)
      moreover have "?E = None"
        using nb T by (auto simp: runK_escR split: list.splits)
      moreover have "R c T = R c xs"
        using Rplain [of x xs c] False nb T by simp
      ultimately show ?thesis by simp
    qed
    with goal show ?thesis by (simp add: R_def)
  qed
qed

lemma scanTok_dropWhile_None:
  "scanTok (dropWhile isSpace s) = None \<Longrightarrow> scanTok s = None"
proof (induction s)
  case Nil
  then show ?case by simp
next
  case (Cons x xs)
  show ?case
  proof (cases "isSpace x")
    case True
    with Cons have xs: "scanTok xs = None" by simp
    have "\<not> tailOK (x # xs)"
    proof
      assume "tailOK (x # xs)"
      then have "tailOK (dropWhile isSpace (x # xs))" by (simp only: tailOK_dropWhile)
      from scanTok_tailOK [OF this] Cons.prems show False by simp
    qed
    moreover from True have "x \<noteq> backslash" using not_space_backslash by auto
    ultimately show ?thesis using xs by (simp add: scanTok_Cons)
  next
    case False
    with Cons.prems show ?thesis by simp
  qed
qed

lemma runK_capture_tail:
  "runK (Seq (Group (Star False iterR)) tailR) Some (c, t) =
     (case scanTok t of
        None \<Rightarrow> None
      | Some t' \<Rightarrow> Some (Some (take (length t - length t') t), afterTail t'))"
proof -
  define K where
    "K st' = runK tailR Some (Some (take (length t - length (snd st')) t), snd st')"
    for st' :: matchState
  have Kval: "K (c', t') =
      (case dropWhile isSpace t' of
         [] \<Rightarrow> Some (Some (take (length t - length t') t), [])
       | x # xs \<Rightarrow> if x = comma then Some (Some (take (length t - length t') t), xs) else None)"
    for c' t'
    by (simp add: K_def runK_tailR)
  have Kprop: "(K (c', t') \<noteq> None) = tailOK t'" for c' t'
    by (cases "dropWhile isSpace t'") (simp_all add: Kval tailOK_def del: dropWhile_eq_Nil_conv)
  have "runK (Seq (Group (Star False iterR)) tailR) Some (c, t) =
      runK (Star False iterR) K (c, t)"
    by (simp add: runK_Seq runK_Group K_def [abs_def])
  also have "\<dots> = (case scanTok t of None \<Rightarrow> None | Some t' \<Rightarrow> K (c, t'))"
    by (rule star_iter [OF Kprop])
  also have "\<dots> = (case scanTok t of
        None \<Rightarrow> None
      | Some t' \<Rightarrow> Some (Some (take (length t - length t') t), afterTail t'))"
  proof (cases "scanTok t")
    case None
    then show ?thesis by simp
  next
    case (Some t')
    from scanTok_Some_tailOK [OF Some] have "tailOK t'" .
    then have "K (c, t') = Some (Some (take (length t - length t') t), afterTail t')"
      by (cases "dropWhile isSpace t'")
         (simp_all add: Kval afterTail_def tailOK_def del: dropWhile_eq_Nil_conv)
    with Some show ?thesis by simp
  qed
  finally show ?thesis .
qed

lemma regexExec_splitter: "regexExec splitter s = execResult s"
proof -
  let ?M = "runK (Seq (Group (Star False iterR)) tailR) Some"
  have Mnone: "?M (c, t) = None \<longleftrightarrow> scanTok t = None" for c t
    by (simp add: runK_capture_tail split: option.splits)
  have lead: "runK (Star True wsR) ?M (c, s) = ?M (c, dropWhile isSpace s)" for c
  proof (induction s)
    case Nil
    show ?case
      by (subst runK_Star_greedy) (simp add: runK_wsR)
  next
    case (Cons x xs)
    show ?case
    proof (cases "isSpace x")
      case True
      have u: "runK (Star True wsR) ?M (c, x # xs) =
          orElse (runK (Star True wsR) ?M (c, xs)) (?M (c, x # xs))"
        using True by (subst runK_Star_greedy) (simp add: runK_wsR)
      show ?thesis
      proof (cases "?M (c, dropWhile isSpace xs)")
        case None
        then have "scanTok (dropWhile isSpace (x # xs)) = None"
          using True by (simp add: Mnone)
        from scanTok_dropWhile_None [OF this] have "?M (c, x # xs) = None"
          by (simp add: Mnone)
        with None Cons.IH True show ?thesis unfolding u by simp
      next
        case (Some r)
        with Cons.IH True show ?thesis unfolding u by simp
      qed
    next
      case False
      then show ?thesis
        by (subst runK_Star_greedy) (simp add: runK_wsR)
    qed
  qed
  show ?thesis
    by (simp add: regexExec_runK splitter_def runK_Seq [of "Star True wsR"] lead
        runK_capture_tail execResult_def Let_def)
qed

lemma wellEscaped_Cons:
  "wellEscaped (x # xs) =
     (if x = backslash then (case xs of [] \<Rightarrow> False | y # ys \<Rightarrow> wellEscaped ys)
      else wellEscaped xs)"
  by (cases xs) simp_all

lemma takeSegment_Cons:
  "takeSegment (x # xs) =
     (if x = comma then ([], Some xs)
      else if x = backslash then
        (case xs of [] \<Rightarrow> ([x], None)
         | y # ys \<Rightarrow> (x # y # fst (takeSegment ys), snd (takeSegment ys)))
      else (x # fst (takeSegment xs), snd (takeSegment xs)))"
  by (cases xs) simp_all

lemma trimRight_Cons:
  "trimRight (x # xs) =
     (if list_all isSpace (x # xs) then []
      else if x = backslash then (case xs of [] \<Rightarrow> [x] | y # ys \<Rightarrow> x # y # trimRight ys)
      else x # trimRight xs)"
  by (cases xs) (auto simp: not_space_backslash)

lemma splitUnescaped_not_Nil: "splitUnescaped s \<noteq> []"
  by (induction s rule: splitUnescaped.induct) (auto split: list.splits elim: consHead.elims)

lemma consHead_Cons: "segs \<noteq> [] \<Longrightarrow> consHead pre segs = (pre @ hd segs) # tl segs"
  by (cases segs) simp_all

lemma splitUnescaped_Cons:
  "splitUnescaped (x # xs) =
     (if x = comma then [] # splitUnescaped xs
      else if x = backslash then
        (case xs of [] \<Rightarrow> [[x]] | y # ys \<Rightarrow> consHead [x, y] (splitUnescaped ys))
      else consHead [x] (splitUnescaped xs))"
  by (cases xs) (simp_all add: comma_not_backslash)

lemma splitUnescaped_takeSegment:
  "splitUnescaped t =
     fst (takeSegment t) #
       (case snd (takeSegment t) of None \<Rightarrow> [] | Some rest \<Rightarrow> splitUnescaped rest)"
proof (induction t rule: length_induct)
  case (1 t)
  show ?case
  proof (cases t)
    case Nil
    then show ?thesis by simp
  next
    case (Cons x xs)
    show ?thesis
    proof (cases "x = comma")
      case True
      with Cons show ?thesis by (simp add: takeSegment_Cons splitUnescaped_Cons)
    next
      case nc: False
      show ?thesis
      proof (cases "x = backslash")
        case True
        show ?thesis
        proof (cases xs)
          case Nil
          with Cons True nc show ?thesis by (simp add: takeSegment_Cons splitUnescaped_Cons)
        next
          case (Cons y ys)
          have "length ys < length t" by (simp add: \<open>t = x # xs\<close> Cons)
          with 1 have "splitUnescaped ys = fst (takeSegment ys) #
             (case snd (takeSegment ys) of None \<Rightarrow> [] | Some rest \<Rightarrow> splitUnescaped rest)"
            by blast
          then have "consHead [x, y] (splitUnescaped ys) = (x # y # fst (takeSegment ys)) #
             (case snd (takeSegment ys) of None \<Rightarrow> [] | Some rest \<Rightarrow> splitUnescaped rest)"
            by (metis append_Cons append_Nil consHead.simps(2))
          with \<open>t = x # xs\<close> Cons True nc show ?thesis
            by (simp add: takeSegment_Cons splitUnescaped_Cons)
        qed
      next
        case False
        have "length xs < length t" by (simp add: Cons)
        with 1 have "splitUnescaped xs = fst (takeSegment xs) #
             (case snd (takeSegment xs) of None \<Rightarrow> [] | Some rest \<Rightarrow> splitUnescaped rest)"
          by blast
        then have "consHead [x] (splitUnescaped xs) = (x # fst (takeSegment xs)) #
             (case snd (takeSegment xs) of None \<Rightarrow> [] | Some rest \<Rightarrow> splitUnescaped rest)"
          by (metis append_Cons append_Nil consHead.simps(2))
        with Cons False nc show ?thesis
          by (simp add: takeSegment_Cons splitUnescaped_Cons)
      qed
    qed
  qed
qed

lemma takeSegment_decompose:
  "wellEscaped t \<Longrightarrow>
   t = fst (takeSegment t) @ (case snd (takeSegment t) of None \<Rightarrow> [] | Some rest \<Rightarrow> comma # rest)
   \<and> wellEscaped (restOf (snd (takeSegment t)))"
proof (induction t rule: length_induct)
  case (1 t)
  show ?case
  proof (cases t)
    case Nil
    then show ?thesis by (simp add: restOf_def)
  next
    case (Cons x xs)
    show ?thesis
    proof (cases "x = comma")
      case True
      with Cons 1(2) show ?thesis
        by (simp add: takeSegment_Cons restOf_def wellEscaped_Cons comma_not_backslash)
    next
      case nc: False
      show ?thesis
      proof (cases "x = backslash")
        case True
        with 1(2) Cons obtain y ys where xs: "xs = y # ys" and w: "wellEscaped ys"
          by (cases xs) (auto simp: wellEscaped_Cons)
        have "length ys < length t" by (simp add: Cons xs)
        with 1(1) w have "ys = fst (takeSegment ys) @
            (case snd (takeSegment ys) of None \<Rightarrow> [] | Some rest \<Rightarrow> comma # rest)
            \<and> wellEscaped (restOf (snd (takeSegment ys)))"
          by blast
        with Cons xs True nc show ?thesis by (simp add: takeSegment_Cons)
      next
        case False
        with 1(2) Cons have w: "wellEscaped xs" by (simp add: wellEscaped_Cons)
        have "length xs < length t" by (simp add: Cons)
        with 1(1) w have "xs = fst (takeSegment xs) @
            (case snd (takeSegment xs) of None \<Rightarrow> [] | Some rest \<Rightarrow> comma # rest)
            \<and> wellEscaped (restOf (snd (takeSegment xs)))"
          by blast
        with Cons False nc show ?thesis by (simp add: takeSegment_Cons)
      qed
    qed
  qed
qed

lemma tailOK_takeSegment:
  "tailOK t \<Longrightarrow>
   list_all isSpace (fst (takeSegment t)) \<and> afterTail t = restOf (snd (takeSegment t))"
proof (induction t)
  case Nil
  show ?case by (simp add: afterTail_def restOf_def)
next
  case (Cons x xs)
  show ?case
  proof (cases "isSpace x")
    case True
    with Cons.prems have "tailOK xs" by (simp add: tailOK_space)
    from Cons.IH [OF this] True not_space_comma not_space_backslash show ?thesis
      by (auto simp: takeSegment_Cons afterTail_def)
  next
    case False
    with Cons.prems have "x = comma" by (simp add: tailOK_nonspace)
    with False show ?thesis
      by (simp add: takeSegment_Cons afterTail_def restOf_def)
  qed
qed

lemma takeSegment_spaces_tailOK:
  "list_all isSpace (fst (takeSegment t)) \<Longrightarrow> tailOK t"
proof (induction t)
  case Nil
  show ?case by (rule tailOK_Nil)
next
  case (Cons x xs)
  show ?case
  proof (cases "x = comma")
    case True
    then show ?thesis by (simp add: tailOK_nonspace not_space_comma)
  next
    case nc: False
    show ?thesis
    proof (cases "x = backslash")
      case True
      with nc Cons.prems not_space_backslash show ?thesis
        by (auto simp: takeSegment_Cons split: list.splits)
    next
      case False
      with nc Cons.prems have "isSpace x" "list_all isSpace (fst (takeSegment xs))"
        by (simp_all add: takeSegment_Cons)
      with Cons.IH show ?thesis by (simp add: tailOK_space)
    qed
  qed
qed

lemma trimRight_spaces: "list_all isSpace s \<Longrightarrow> trimRight s = []"
  by (cases s) (simp_all add: trimRight_Cons)

lemma scan_segment:
  "wellEscaped t \<Longrightarrow>
   \<exists>t'. scanTok t = Some t' \<and> t = trimRight (fst (takeSegment t)) @ t'
        \<and> afterTail t' = restOf (snd (takeSegment t))"
proof (induction t rule: length_induct)
  case (1 t)
  show ?case
  proof (cases "tailOK t")
    case True
    from tailOK_takeSegment [OF True] scanTok_tailOK [OF True] show ?thesis
      by (simp add: trimRight_spaces)
  next
    case False
    then have ns: "\<not> list_all isSpace (fst (takeSegment t))"
      using takeSegment_spaces_tailOK by blast
    from False obtain x xs where t: "t = x # xs" by (cases t) (auto simp: tailOK_Nil)
    from False t have xc: "x \<noteq> comma"
      using not_space_comma by (auto simp: tailOK_def split: if_splits)
    show ?thesis
    proof (cases "x = backslash")
      case True
      with 1(2) t obtain y ys where xs: "xs = y # ys" and w: "wellEscaped ys"
        by (cases xs) (auto simp: wellEscaped_Cons)
      have "length ys < length t" by (simp add: t xs)
      with 1(1) w obtain t' where t': "scanTok ys = Some t'"
        "ys = trimRight (fst (takeSegment ys)) @ t'"
        "afterTail t' = restOf (snd (takeSegment ys))"
        by blast
      have seg: "takeSegment t = (x # y # fst (takeSegment ys), snd (takeSegment ys))"
        using t xs True xc by (simp add: takeSegment_Cons)
      have sc: "scanTok t = scanTok ys"
        using False True t xs by (simp add: scanTok_Cons)
      have tr: "trimRight (fst (takeSegment t)) = x # y # trimRight (fst (takeSegment ys))"
        using True not_space_backslash by (simp add: seg trimRight_Cons)
      have eq: "t = trimRight (fst (takeSegment t)) @ t'"
        unfolding tr using t'(2) by (simp add: t xs)
      from sc t'(1) eq t'(3) seg show ?thesis by simp
    next
      case nb: False
      from 1(2) t nb have w: "wellEscaped xs" by (simp add: wellEscaped_Cons)
      have "length xs < length t" by (simp add: t)
      with 1(1) w obtain t' where t': "scanTok xs = Some t'"
        "xs = trimRight (fst (takeSegment xs)) @ t'"
        "afterTail t' = restOf (snd (takeSegment xs))"
        by blast
      have seg: "takeSegment t = (x # fst (takeSegment xs), snd (takeSegment xs))"
        using t nb xc by (simp add: takeSegment_Cons)
      have sc: "scanTok t = scanTok xs"
        using False nb t by (simp add: scanTok_Cons)
      have tr: "trimRight (fst (takeSegment t)) = x # trimRight (fst (takeSegment xs))"
        using ns nb unfolding seg by (simp add: trimRight_Cons)
      have eq: "t = trimRight (fst (takeSegment t)) @ t'"
        unfolding tr using t'(2) by (simp add: t)
      from sc t'(1) eq t'(3) seg show ?thesis by simp
    qed
  qed
qed

lemma takeSegment_leading:
  "dropWhile isSpace (fst (takeSegment t)) = fst (takeSegment (dropWhile isSpace t))
   \<and> snd (takeSegment t) = snd (takeSegment (dropWhile isSpace t))"
proof (induction t)
  case Nil
  show ?case by simp
next
  case (Cons x xs)
  show ?case
  proof (cases "isSpace x")
    case True
    then have "x \<noteq> comma" "x \<noteq> backslash"
      using not_space_comma not_space_backslash by auto
    with True Cons.IH show ?thesis by (simp add: takeSegment_Cons)
  next
    case False
    then show ?thesis by (auto simp: takeSegment_Cons split: list.splits)
  qed
qed

lemma wellEscaped_dropWhile: "wellEscaped t \<Longrightarrow> wellEscaped (dropWhile isSpace t)"
proof (induction t)
  case Nil
  show ?case by simp
next
  case (Cons x xs)
  show ?case
  proof (cases "isSpace x")
    case True
    then have "x \<noteq> backslash" using not_space_backslash by auto
    with Cons True show ?thesis by (simp add: wellEscaped_Cons)
  next
    case False
    with Cons.prems show ?thesis by simp
  qed
qed

lemma exec_segment:
  assumes "wellEscaped t"
  shows "execResult t =
         Some (Some (trimToken (fst (takeSegment t))), restOf (snd (takeSegment t)))"
proof -
  let ?t1 = "dropWhile isSpace t"
  from scan_segment [OF wellEscaped_dropWhile [OF assms]] obtain t'
    where t': "scanTok ?t1 = Some t'" "?t1 = trimRight (fst (takeSegment ?t1)) @ t'"
      "afterTail t' = restOf (snd (takeSegment ?t1))"
    by blast
  from t'(2) have "take (length ?t1 - length t') ?t1 = trimRight (fst (takeSegment ?t1))"
    by (metis add_diff_cancel_right' append_eq_conv_conj length_append)
  moreover have "trimRight (fst (takeSegment ?t1)) = trimToken (fst (takeSegment t))"
    by (simp add: trimToken_def takeSegment_leading)
  moreover have "restOf (snd (takeSegment ?t1)) = restOf (snd (takeSegment t))"
    using takeSegment_leading [of t] by simp
  ultimately show ?thesis
    using t'(1,3) by (simp add: execResult_def Let_def)
qed

lemma splitLoop_unfold:
  "splitLoop r S p q A =
     (if q < length S then
        (case regexExec r (drop q S) of
           None \<Rightarrow> splitLoop r S p (q + 1) A
         | Some (cap, rest) \<Rightarrow>
             (let e = min (q + (length (drop q S) - length rest)) (length S)
              in if e = p then splitLoop r S p (q + 1) A
                 else splitLoop r S e e (A @ [Some (take (q - p) (drop p S)), cap])))
      else A @ [Some (drop p S)])"
  by (rule splitLoop.simps)

lemma splitLoop_wellEscaped:
  "wellEscaped t \<Longrightarrow>
   \<exists>toks. splitLoop splitter (done @ t) (length done) (length done) A =
             A @ concat (map (\<lambda>tok. [Some [], Some tok]) toks) @ [Some []]
         \<and> filter (\<lambda>x. x \<noteq> []) toks =
             filter (\<lambda>x. x \<noteq> []) (map trimToken (splitUnescaped t))"
proof (induction t arbitrary: "done" A rule: length_induct)
  case (1 t)
  show ?case
  proof (cases "t = []")
    case True
    have "splitLoop splitter (done @ t) (length done) (length done) A = A @ [Some []]"
      by (subst splitLoop_unfold) (simp add: True)
    moreover have "filter (\<lambda>x. x \<noteq> []) (map trimToken (splitUnescaped t)) = []"
      by (simp add: True trimToken_def)
    ultimately show ?thesis by (intro exI [of _ "[]"]) simp
  next
    case False
    let ?seg = "fst (takeSegment t)"
    let ?r = "snd (takeSegment t)"
    let ?rest = "restOf ?r"
    let ?tok = "trimToken ?seg"
    from takeSegment_decompose [OF 1(2)]
    have dec: "t = ?seg @ (case ?r of None \<Rightarrow> [] | Some rest \<Rightarrow> comma # rest)"
      and wr: "wellEscaped ?rest" by simp_all
    define pre where "pre = (case ?r of None \<Rightarrow> ?seg | Some rest \<Rightarrow> ?seg @ [comma])"
    have t: "t = pre @ ?rest"
      using dec by (cases ?r) (simp_all add: pre_def restOf_def)
    have pre: "pre \<noteq> []"
    proof (cases ?r)
      case None
      with dec False show ?thesis by (simp add: pre_def)
    next
      case (Some rest)
      then show ?thesis by (simp add: pre_def)
    qed
    have len: "length ?rest < length t"
      using t pre by (metis add_diff_cancel_right' diff_is_0_eq' length_append length_greater_0_conv
          less_add_same_cancel2 linorder_not_le)
    have ex: "regexExec splitter t = Some (Some ?tok, ?rest)"
      by (simp add: regexExec_splitter exec_segment [OF 1(2)])
    have d1: "length t - length ?rest = length pre"
      using t by (metis add_diff_cancel_right' length_append)
    have d2: "length t = length pre + length ?rest"
      using t by (metis length_append)
    have d3: "0 < length pre"
      using pre by simp
    have S: "done @ t = (done @ pre) @ ?rest"
      using t by simp
    have step: "splitLoop splitter (done @ t) (length done) (length done) A =
        splitLoop splitter ((done @ pre) @ ?rest) (length (done @ pre)) (length (done @ pre))
          (A @ [Some [], Some ?tok])"
    proof -
      have m: "min (length done + length pre) (length done + length t) = length done + length pre"
        using d2 by simp
      have "splitLoop splitter (done @ t) (length done) (length done) A =
          splitLoop splitter (done @ t) (length done + length pre) (length done + length pre)
            (A @ [Some [], Some ?tok])"
        using False d3 len
        by (subst splitLoop_unfold) (simp add: ex d1 m Let_def)
      then show ?thesis by (simp only: S length_append)
    qed
    from 1(1) len wr obtain toks where
      toks: "splitLoop splitter ((done @ pre) @ ?rest) (length (done @ pre)) (length (done @ pre))
          (A @ [Some [], Some ?tok]) =
        (A @ [Some [], Some ?tok]) @ concat (map (\<lambda>tok. [Some [], Some tok]) toks) @ [Some []]"
      and flt: "filter (\<lambda>x. x \<noteq> []) toks =
        filter (\<lambda>x. x \<noteq> []) (map trimToken (splitUnescaped ?rest))"
      by blast
    have res: "splitLoop splitter (done @ t) (length done) (length done) A =
        A @ concat (map (\<lambda>tok. [Some [], Some tok]) (?tok # toks)) @ [Some []]"
      unfolding step toks by simp
    have "filter (\<lambda>x. x \<noteq> []) (?tok # toks) =
        filter (\<lambda>x. x \<noteq> []) (map trimToken (splitUnescaped t))"
    proof (cases ?r)
      case None
      then have "?rest = []" by (simp add: restOf_def)
      with flt have "filter (\<lambda>x. x \<noteq> []) toks = []" by (simp add: trimToken_def)
      moreover from None have "splitUnescaped t = [?seg]"
        using splitUnescaped_takeSegment [of t] by simp
      ultimately show ?thesis by simp
    next
      case (Some rest)
      then have "?rest = rest" by (simp add: restOf_def)
      moreover from Some have "splitUnescaped t = ?seg # splitUnescaped rest"
        using splitUnescaped_takeSegment [of t] by simp
      ultimately show ?thesis using flt by simp
    qed
    with res show ?thesis by blast
  qed
qed

lemma filterLength_pieces:
  "filterLength (concat (map (\<lambda>tok. [Some [], Some tok]) toks) @ [Some []]) =
     Inr (filter (\<lambda>x. x \<noteq> []) toks)"
  by (induction toks) simp_all

lemma unescape_Nil_iff: "unescape t = [] \<longleftrightarrow> t = []"
  by (cases t rule: unescape.cases) simp_all

lemma indexOf_reserved:
  "(\<not> (1 + indexOf xs s \<noteq> 0)) = (s \<notin> set xs)"
  by (simp add: indexOf_def)

lemma takeWhile_member_short:
  "x \<in> set pre \<Longrightarrow> length (takeWhile (\<lambda>y. y \<noteq> x) (pre @ ys)) < length pre"
  by (induction pre) auto

lemma takeWhile_not_member:
  "x \<notin> set pre \<Longrightarrow> takeWhile (\<lambda>y. y \<noteq> x) (pre @ x # xs) = pre"
  by (induction pre) auto

lemma dedupe_firstSeen_aux:
  "map snd (filter (\<lambda>(index, s). indexOf (pre @ xs) s = int index)
       (enumerate (length pre) xs)) = firstSeen (set pre) xs"
proof (induction xs arbitrary: pre)
  case Nil
  show ?case by simp
next
  case (Cons x xs)
  have idx: "indexOf (pre @ x # xs) x = int (length pre) \<longleftrightarrow> x \<notin> set pre"
  proof (cases "x \<in> set pre")
    case True
    then have "length (takeWhile (\<lambda>y. y \<noteq> x) (pre @ x # xs)) < length pre"
      by (rule takeWhile_member_short)
    with True show ?thesis by (simp add: indexOf_def)
  next
    case False
    then have "takeWhile (\<lambda>y. y \<noteq> x) (pre @ x # xs) = pre"
      by (rule takeWhile_not_member)
    with False show ?thesis by (simp add: indexOf_def)
  qed
  from Cons.IH [of "pre @ [x]"]
  have IH: "map snd (filter (\<lambda>(index, s). indexOf (pre @ x # xs) s = int index)
       (enumerate (Suc (length pre)) xs)) = firstSeen (insert x (set pre)) xs"
    by simp
  show ?case
  proof (cases "x \<in> set pre")
    case True
    with IH idx show ?thesis by (simp add: insert_absorb)
  next
    case False
    with IH idx show ?thesis by simp
  qed
qed

lemma dedupe_firstSeen:
  "map snd (filter (\<lambda>(index, s). indexOf xs s = int index) (enumerate 0 xs)) = firstSeen {} xs"
  using dedupe_firstSeen_aux [of "[]" xs] by simp

lemma filter_unescape:
  "filter (\<lambda>s. s \<notin> set ([] # names)) (map unescape (filter (\<lambda>x. x \<noteq> []) xs)) =
   filter (\<lambda>t. t \<noteq> [] \<and> t \<notin> set names) (map unescape xs)"
  by (induction xs) (auto simp: unescape_Nil_iff)


lemmas eval_columnNamesToArray =
  columnNamesToArray_def regexSplit_def regexExec_def splitter_def isSpace_def
  wsR_def plainR_def escR_def iterR_def tailR_def
  backslash_def comma_def indexOf_def internalNames_def enumerate_eq_zip Let_def
  matches.simps(6) splitLoop.simps

lemmas eval_columnNamesSpec =
  columnNamesSpec_def trimToken_def isSpace_def backslash_def comma_def internalNames_def




section \<open>Column selection and the empty poll\<close>

lemma find_name_iff:
  "(find (\<lambda>column. name column = n) dtableColumns \<noteq> None) = (n \<in> name ` set dtableColumns)"
  by (auto simp: find_None_iff)

lemma finalColumnNames_Cons:
  "finalColumnNames (first # others) columnNames =
     Inr (name first #
          filter (\<lambda>n. n \<in> name ` set (first # others)) columnNames)"
  unfolding finalColumnNames_def find_name_iff by (simp add: Let_def)

lemma apiRequestAllItems_one_short_page:
  "length rows \<le> 999 \<Longrightarrow> length rows \<le> n \<Longrightarrow>
   fst (apiRequestAllItems n m e b query [Reply (Some rows)]) = Returned rows"
  by (simp add: apiRequestAllItems_def rowFetchSegmentLimit_def Let_def)

text \<open>
  Claim C4, as the code has it. On a table with at least one column, the final column list is
  the name of the first column followed by the requested names that occur in the table's
  columns, in the order requested. Nothing removes a repetition: the list is free of
  repetitions exactly when the first column's name is not requested and the requested names
  that remain are themselves without repetition.
\<close>

theorem finalColumnNames_spec:
  assumes "dtableColumns \<noteq> []"
  shows "finalColumnNames dtableColumns columnNames =
           Inr (name (hd dtableColumns) #
                filter (\<lambda>n. n \<in> name ` set dtableColumns) columnNames)
       \<and> ((\<exists>names. finalColumnNames dtableColumns columnNames = Inr names \<and> distinct names)
            \<longleftrightarrow> name (hd dtableColumns) \<notin> set columnNames
                \<and> distinct (filter (\<lambda>n. n \<in> name ` set dtableColumns) columnNames))"
proof -
  from assms obtain first others where d: "dtableColumns = first # others"
    by (cases dtableColumns) auto
  have eq: "finalColumnNames dtableColumns columnNames =
           Inr (name (hd dtableColumns) #
                filter (\<lambda>n. n \<in> name ` set dtableColumns) columnNames)"
    unfolding d finalColumnNames_Cons by simp
  have "name (hd dtableColumns) \<in> name ` set dtableColumns"
    by (simp add: d)
  then have "distinct (name (hd dtableColumns) #
                filter (\<lambda>n. n \<in> name ` set dtableColumns) columnNames)
       \<longleftrightarrow> name (hd dtableColumns) \<notin> set columnNames
                \<and> distinct (filter (\<lambda>n. n \<in> name ` set dtableColumns) columnNames)"
    by simp
  with eq show ?thesis by simp
qed

theorem finalColumnNames_spec_witness:
  "finalColumnNames
     [\<lparr>key = ''0000'', name = ''Title'', type = ''text''\<rparr>,
      \<lparr>key = ''k2'', name = ''Surname'', type = ''text''\<rparr>] [''Surname'', ''Ghost'']
     = Inr [''Title'', ''Surname'']"
proof -
  let ?columns = "[\<lparr>key = ''0000'', name = ''Title'', type = ''text''\<rparr>,
      \<lparr>key = ''k2'', name = ''Surname'', type = ''text''\<rparr>]"
  have nonempty: "?columns \<noteq> []" by simp
  from finalColumnNames_spec [OF nonempty, of "[''Surname'', ''Ghost'']", THEN conjunct1]
  show ?thesis by simp
qed

text \<open>
  Requesting the first column by name gives it twice: on the columns Title, Surname the
  request for Title yields Title, Title.
\<close>

theorem finalColumnNames_duplicate_counterexample:
  "finalColumnNames
     [\<lparr>key = ''0000'', name = ''Title'', type = ''text''\<rparr>,
      \<lparr>key = ''k2'', name = ''Surname'', type = ''text''\<rparr>] [''Title'']
     = Inr [''Title'', ''Title'']
   \<and> \<not> distinct [''Title'', ''Title'']"
  by (simp add: finalColumnNames_def Let_def)

text \<open>
  Claim C8. When the steps before the fetch succeed (the column names parse, there are
  credentials, the table's columns are found) and the fetch returns no rows, \<^verbatim>\<open>poll\<close> returns
  \<^verbatim>\<open>null\<close>, not an empty list of items and not an error, and has recorded the end date. The
  test that decides it gives \<^verbatim>\<open>null\<close> as well when \<^verbatim>\<open>rows.rows\<close> is not an array.
\<close>

theorem poll_empty_fetch:
  assumes "columnNamesToArray (case paramColumnNames this of None \<Rightarrow> [] | Some s \<Rightarrow> s)
             = Inr columnNames"
    and "getCredentials this = Some api"
    and "apiDtableColumns (serverMetadata this) (paramTableName this) = Returned dtableColumns"
    and "fst (apiRequestAllItems (argumentLimit rt) ''GET'' rowsEndpoint []
                (Some (objSet ''table_name'' (JStr (paramTableName this)) []))
                (serverReplies this))
           = Returned []"
  shows "poll rt this = (Returned None, Some (pollEndDate this))
       \<and> pollRows rt this dtableColumns columnNames (Some []) = Returned None
       \<and> pollRows rt this dtableColumns columnNames None = Returned None"
  using assms by (simp add: poll_def pollRows_def Let_def)

theorem poll_empty_fetch_witness:
  "poll rt0
     \<lparr>getWorkflowStaticData = None, paramTableName = ''Table1'', paramOperation = ''create'',
      paramColumnNames = None, getCredentials = Some [], getMode = ''trigger'',
      utcNow = ''2021-06-01T10:00:00.000+00:00'',
      utcTwoMinutesAgo = ''2021-06-01T09:58:00.000+00:00'',
      serverMetadata = Returned (Some
        [\<lparr>table_id = ''0000'', table_name = ''Table1'',
          table_columns = [\<lparr>key = ''0000'', name = ''Title'', type = ''text''\<rparr>]\<rparr>]),
      serverReplies = [Reply (Some [])]\<rparr>
   = (Returned None, Some ''2021-06-01T10:00:00.000+00:00'')"
proof -
  let ?ctx = "\<lparr>getWorkflowStaticData = None, paramTableName = ''Table1'',
      paramOperation = ''create'',
      paramColumnNames = None, getCredentials = Some [], getMode = ''trigger'',
      utcNow = ''2021-06-01T10:00:00.000+00:00'',
      utcTwoMinutesAgo = ''2021-06-01T09:58:00.000+00:00'',
      serverMetadata = Returned (Some
        [\<lparr>table_id = ''0000'', table_name = ''Table1'',
          table_columns = [\<lparr>key = ''0000'', name = ''Title'', type = ''text''\<rparr>]\<rparr>]),
      serverReplies = [Reply (Some [])]\<rparr>"
  have names: "columnNamesToArray (case paramColumnNames ?ctx of None \<Rightarrow> [] | Some s \<Rightarrow> s)
      = Inr []"
    by (simp add: columnNamesToArray_def)
  have api: "getCredentials ?ctx = Some []"
    by simp
  have textType: "objGet columnTypes ''text'' = JStr ''Text''"
    by (simp add: objGet_def columnTypes_def)
  have columns: "apiDtableColumns (serverMetadata ?ctx) (paramTableName ?ctx) =
      Returned [\<lparr>key = ''0000'', name = ''Title'', type = ''text''\<rparr>]"
    by (simp add: apiDtableColumns_def dtableSchemaColumns_def dtableSchemaIsColumn_def textType)
  have fetch: "fst (apiRequestAllItems (argumentLimit rt0) ''GET'' rowsEndpoint []
                (Some (objSet ''table_name'' (JStr (paramTableName ?ctx)) []))
                (serverReplies ?ctx)) = Returned []"
    by (simp add: apiRequestAllItems_one_short_page)
  have "pollEndDate ?ctx = ''2021-06-01T10:00:00.000+00:00''"
    by (simp add: pollEndDate_def)
  with poll_empty_fetch [OF names api columns fetch, THEN conjunct1]
  show ?thesis by simp
qed
end
